theory Spec2Isabelle
  imports Main "HOL-Library.Word" "HOL-Library.Signed_Division" "HOL-Library.Multiset"
begin

unbundle bit_operations_syntax

section \<open>The inode layer of the Pintos file system (filesys/inode.c)\<close>

text \<open>
  The theory embeds \<^verbatim>\<open>filesys/inode.c\<close>: the on-disk inode record with its
  12 direct, one single-indirect and one double-indirect pointer, the resolver
  \<^verbatim>\<open>byte_to_sector\<close>, the growth engine \<^verbatim>\<open>inode_grow\<close>, the release engine
  \<^verbatim>\<open>inode_free\<close>, the sector-wise read and write paths and the registry of open
  inodes. Locks are left out: the embedding is sequential.
\<close>

subsection \<open>Machine types and constants\<close>

text \<open>
  \<^verbatim>\<open>block_sector_t\<close> is \<^verbatim>\<open>uint32_t\<close>; \<^verbatim>\<open>off_t\<close> is \<^verbatim>\<open>int32_t\<close> and is modelled on the
  integers (no claim concerns its overflow); \<^verbatim>\<open>size_t\<close> is an unsigned 32-bit
  integer, modelled on the naturals with the wrap-around written out where a
  subtraction or a conversion can wrap.
\<close>

type_synonym block_sector_t = "32 word"
type_synonym byte = "8 word"
type_synonym off_t = int

abbreviation BLOCK_SECTOR_SIZE :: nat where "BLOCK_SECTOR_SIZE \<equiv> 512"
abbreviation INODE_MAGIC :: "32 word" where "INODE_MAGIC \<equiv> 0x494e4f44"
abbreviation INDIRECT_BLOCK_SIZE :: nat where "INDIRECT_BLOCK_SIZE \<equiv> 128"
abbreviation DIRECT_BLOCKS :: nat where "DIRECT_BLOCKS \<equiv> 12"
abbreviation INDIRECT_BLOCKS :: nat where "INDIRECT_BLOCKS \<equiv> 140"
abbreviation DOUBLY_BLOCKS :: nat where "DOUBLY_BLOCKS \<equiv> 16524"

text \<open>The value \<^verbatim>\<open>-1\<close> returned as a \<^verbatim>\<open>block_sector_t\<close>: the invalid sector.\<close>

abbreviation INVALID_SECTOR :: block_sector_t where "INVALID_SECTOR \<equiv> - 1"

text \<open>Conversion of a C \<^verbatim>\<open>int\<close> to \<^verbatim>\<open>size_t\<close>, and the decrement of a \<^verbatim>\<open>size_t\<close>.\<close>

definition size_t :: "int \<Rightarrow> nat" where
  "size_t x = nat (x mod 2 ^ 32)"

definition size_t_sub :: "nat \<Rightarrow> nat \<Rightarrow> nat" where
  "size_t_sub a b = (a + 2 ^ 32 - b mod 2 ^ 32) mod 2 ^ 32"

definition size_t_dec :: "nat \<Rightarrow> nat" where
  "size_t_dec n = size_t_sub n 1"

text \<open>
  Modelled from the spec: \<^verbatim>\<open>round.h\<close> is not among the sources. Its macro
  \<^verbatim>\<open>DIV_ROUND_UP (X, STEP)\<close> is the spec's \<open>ceil (X / STEP)\<close>, which C computes as
  \<^verbatim>\<open>((X) + (STEP) - 1) / (STEP)\<close> with the division truncating towards zero.
\<close>

definition DIV_ROUND_UP :: "int \<Rightarrow> int \<Rightarrow> int" where
  "DIV_ROUND_UP x step = (x + step - 1) sdiv step"

definition bytes_to_sectors :: "off_t \<Rightarrow> nat" where
  "bytes_to_sectors sz = size_t (DIV_ROUND_UP sz (int BLOCK_SECTOR_SIZE))"

subsection \<open>Sectors as bytes\<close>

text \<open>
  A sector is \<^verbatim>\<open>BLOCK_SECTOR_SIZE\<close> bytes. An index sector is read into an array of
  128 sector numbers, little-endian as on the x86 the code runs on. In-memory
  arrays are functions from the index; only the indices below the array's size
  are meaningful.
\<close>

definition le32 :: "32 word \<Rightarrow> byte list" where
  "le32 w = [ucast w, ucast (drop_bit 8 w), ucast (drop_bit 16 w), ucast (drop_bit 24 w)]"

definition word_le32 :: "byte \<Rightarrow> byte \<Rightarrow> byte \<Rightarrow> byte \<Rightarrow> 32 word" where
  "word_le32 a b c d =
     ucast a OR push_bit 8 (ucast b) OR push_bit 16 (ucast c) OR push_bit 24 (ucast d)"

definition sector_words :: "byte list \<Rightarrow> nat \<Rightarrow> 32 word" where
  "sector_words bs i =
     word_le32 (bs ! (4 * i)) (bs ! (4 * i + 1)) (bs ! (4 * i + 2)) (bs ! (4 * i + 3))"

definition words_bytes :: "(nat \<Rightarrow> 32 word) \<Rightarrow> nat \<Rightarrow> byte list" where
  "words_bytes f n = concat (map (\<lambda>i. le32 (f i)) [0..<n])"

definition words_sector :: "(nat \<Rightarrow> 32 word) \<Rightarrow> byte list" where
  "words_sector f = words_bytes f INDIRECT_BLOCK_SIZE"

definition zeros :: "byte list" where
  "zeros = replicate BLOCK_SECTOR_SIZE 0"

subsection \<open>The on-disk inode and the in-memory inode\<close>

record inode_disk =
  length_d :: off_t
  magic :: "32 word"
  unused :: "nat \<Rightarrow> 32 word"
  direct :: "nat \<Rightarrow> block_sector_t"
  blocks :: nat
  is_dir :: byte
  padding :: "nat \<Rightarrow> byte"

record inode =
  sector :: block_sector_t
  open_cnt :: int
  removed :: bool
  deny_write_cnt :: int
  data :: inode_disk

text \<open>
  The record as the 512 bytes that \<^verbatim>\<open>cache_write (sector, &inode->data)\<close> stores and
  \<^verbatim>\<open>cache_read (sector, &inode->data)\<close> loads: 4 + 4 + 110 * 4 + 14 * 4 + 4 bytes, the
  byte that holds the \<^verbatim>\<open>bool\<close> and the three bytes of padding after it. The code
  copies the record as raw bytes, so \<open>is_dir\<close> is the byte as it is stored and the
  padding is part of the record; no assignment of the code writes the padding.
\<close>

definition inode_disk_sector :: "inode_disk \<Rightarrow> byte list" where
  "inode_disk_sector di =
     le32 (word_of_int (length_d di)) @ le32 (magic di) @ words_bytes (unused di) 110 @
     words_bytes (direct di) 14 @ le32 (word_of_nat (blocks di)) @
     [is_dir di, padding di 0, padding di 1, padding di 2]"

definition sector_inode_disk :: "byte list \<Rightarrow> inode_disk" where
  "sector_inode_disk bs =
     \<lparr>length_d = sint (sector_words bs 0), magic = sector_words bs 1,
      unused = (\<lambda>i. sector_words bs (2 + i)), direct = (\<lambda>i. sector_words bs (112 + i)),
      blocks = unat (sector_words bs 126), is_dir = bs ! 508,
      padding = (\<lambda>i. bs ! (509 + i))\<rparr>"

subsection \<open>The collaborators: sector cache and free map\<close>

text \<open>
  Modelled from the spec: the sector cache (\<^verbatim>\<open>cache_read\<close>, \<^verbatim>\<open>cache_write\<close>) and the
  free-space allocator (\<^verbatim>\<open>free_map_allocate\<close>, \<^verbatim>\<open>free_map_release\<close>) are not among
  the sources. The cache reads and persists one sector; the allocator hands out
  one sector of its pool of free sectors and fails by returning the invalid
  sector when the pool is exhausted; a release returns the sector to the pool.
  The pool is a list: an allocation takes its head and a release appends, so
  that the order of the releases can be read off it.
\<close>

record fs =
  disk :: "block_sector_t \<Rightarrow> byte list"
  free_map :: "block_sector_t list"

definition cache_read :: "fs \<Rightarrow> block_sector_t \<Rightarrow> byte list" where
  "cache_read f s = disk f s"

definition cache_write :: "fs \<Rightarrow> block_sector_t \<Rightarrow> byte list \<Rightarrow> fs" where
  "cache_write f s bs = f\<lparr>disk := (disk f)(s := bs)\<rparr>"

definition free_map_allocate :: "fs \<Rightarrow> block_sector_t \<times> fs" where
  "free_map_allocate f =
     (case free_map f of
        [] \<Rightarrow> (INVALID_SECTOR, f)
      | s # rest \<Rightarrow> (s, f\<lparr>free_map := rest\<rparr>))"

definition free_map_release :: "fs \<Rightarrow> block_sector_t \<Rightarrow> fs" where
  "free_map_release f s = f\<lparr>free_map := free_map f @ [s]\<rparr>"

subsection \<open>The resolver\<close>

definition inode_length :: "inode \<Rightarrow> off_t" where
  "inode_length ino = length_d (data ino)"

definition byte_to_sector :: "fs \<Rightarrow> inode \<Rightarrow> off_t \<Rightarrow> block_sector_t" where
  "byte_to_sector f ino pos =
     (if pos < length_d (data ino) then
        (let index = size_t (pos sdiv int BLOCK_SECTOR_SIZE) in
         if index < DIRECT_BLOCKS then direct (data ino) index
         else if index < INDIRECT_BLOCKS then
           (let index = index - DIRECT_BLOCKS;
                buffer = sector_words (cache_read f (direct (data ino) 12))
            in buffer index)
         else if index < DOUBLY_BLOCKS then
           (let buffer = sector_words (cache_read f (direct (data ino) 13));
                index = index - INDIRECT_BLOCKS;
                buffer = sector_words (cache_read f (buffer (index div INDIRECT_BLOCK_SIZE)))
            in buffer (index mod INDIRECT_BLOCK_SIZE))
         else INVALID_SECTOR)
      else INVALID_SECTOR)"

subsection \<open>The growth engine\<close>

text \<open>
  The three local arrays of \<^verbatim>\<open>inode_grow\<close> are not initialised; what they hold
  when the function starts is a parameter.
\<close>

record grow_stack =
  buffer_init :: "nat \<Rightarrow> block_sector_t"
  buffer1_init :: "nat \<Rightarrow> block_sector_t"
  buffer2_init :: "nat \<Rightarrow> block_sector_t"

text \<open>
  The loop over the direct pointers. The last component of the result tells
  whether the loop left through its \<^verbatim>\<open>return length\<close>.
\<close>

function grow_direct :: "fs \<Rightarrow> inode_disk \<Rightarrow> nat \<Rightarrow> fs \<times> inode_disk \<times> nat \<times> bool" where
  "grow_direct f di new_sectors =
     (if blocks di < DIRECT_BLOCKS then
        (case free_map_allocate f of (s, f1) \<Rightarrow>
           let di1 = di\<lparr>direct := (direct di)(blocks di := s)\<rparr>;
               f2 = cache_write f1 (direct di1 (blocks di1)) zeros;
               new_sectors1 = size_t_dec new_sectors;
               di2 = di1\<lparr>blocks := blocks di1 + 1\<rparr>
           in if new_sectors1 = 0 then (f2, di2, new_sectors1, True)
              else grow_direct f2 di2 new_sectors1)
      else (f, di, new_sectors, False))"
  by pat_completeness auto
termination
  by (relation "measure (\<lambda>(f, di, n). DIRECT_BLOCKS - blocks di)") auto

text \<open>
  The loop over the entries of the single-indirect sector; it is entered with
  \<open>blocks \<ge> 12\<close>, so that \<open>blocks - 12\<close> does not wrap.
\<close>

function grow_indirect ::
  "fs \<Rightarrow> inode_disk \<Rightarrow> (nat \<Rightarrow> block_sector_t) \<Rightarrow> nat
     \<Rightarrow> fs \<times> inode_disk \<times> (nat \<Rightarrow> block_sector_t) \<times> nat" where
  "grow_indirect f di buffer new_sectors =
     (if blocks di < INDIRECT_BLOCKS then
        (case free_map_allocate f of (s, f1) \<Rightarrow>
           let buffer' = buffer(blocks di - DIRECT_BLOCKS := s);
               f2 = cache_write f1 (buffer' (blocks di - DIRECT_BLOCKS)) zeros;
               new_sectors1 = size_t_dec new_sectors;
               di1 = di\<lparr>blocks := blocks di + 1\<rparr>
           in if new_sectors1 = 0 then (f2, di1, buffer', new_sectors1)
              else grow_indirect f2 di1 buffer' new_sectors1)
      else (f, di, buffer, new_sectors))"
  by pat_completeness auto
termination
  by (relation "measure (\<lambda>(f, di, b, n). INDIRECT_BLOCKS - blocks di)") auto

text \<open>The inner loop of the double-indirect tier, over the entries of one slot.\<close>

function grow_doubly_inner ::
  "fs \<Rightarrow> inode_disk \<Rightarrow> (nat \<Rightarrow> block_sector_t) \<Rightarrow> nat \<Rightarrow> nat
     \<Rightarrow> fs \<times> inode_disk \<times> (nat \<Rightarrow> block_sector_t) \<times> nat \<times> nat" where
  "grow_doubly_inner f di buffer2 index2 new_sectors =
     (if index2 < INDIRECT_BLOCK_SIZE then
        (case free_map_allocate f of (s, f1) \<Rightarrow>
           let buffer2' = buffer2(index2 := s);
               f2 = cache_write f1 (buffer2' index2) zeros;
               di1 = di\<lparr>blocks := blocks di + 1\<rparr>;
               index2' = index2 + 1;
               new_sectors1 = size_t_dec new_sectors
           in if new_sectors1 = 0 then (f2, di1, buffer2', index2', new_sectors1)
              else grow_doubly_inner f2 di1 buffer2' index2' new_sectors1)
      else (f, di, buffer2, index2, new_sectors))"
  by pat_completeness auto
termination
  by (relation "measure (\<lambda>(f, di, b, i, n). INDIRECT_BLOCK_SIZE - i)") auto

text \<open>
  The outer loop of the double-indirect tier. \<^verbatim>\<open>buffer2\<close> keeps the entries of the
  previous slot when a new slot is started.
\<close>

function grow_doubly ::
  "fs \<Rightarrow> inode_disk \<Rightarrow> (nat \<Rightarrow> block_sector_t) \<Rightarrow> (nat \<Rightarrow> block_sector_t) \<Rightarrow> nat \<Rightarrow> nat \<Rightarrow> nat
     \<Rightarrow> fs \<times> inode_disk \<times> (nat \<Rightarrow> block_sector_t)" where
  "grow_doubly f di buffer1 buffer2 index1 index2 new_sectors =
     (if index1 < INDIRECT_BLOCK_SIZE then
        (case (if index2 = 0
               then (case free_map_allocate f of (s, f1) \<Rightarrow> (f1, buffer1(index1 := s), buffer2))
               else (f, buffer1, sector_words (cache_read f (buffer1 index1)))) of
           (f1, buffer1', buffer2') \<Rightarrow>
             (case grow_doubly_inner f1 di buffer2' index2 new_sectors of
                (f2, di2, buffer2'', index2', new_sectors') \<Rightarrow>
                  let f3 = cache_write f2 (buffer1' index1) (words_sector buffer2'')
                  in if new_sectors' = 0 then (f3, di2, buffer1')
                     else grow_doubly f3 di2 buffer1' buffer2'' (index1 + 1) 0 new_sectors'))
      else (f, di, buffer1))"
  by pat_completeness auto
termination
  by (relation "measure (\<lambda>(f, di, b1, b2, i1, i2, n). INDIRECT_BLOCK_SIZE - i1)") auto

text \<open>The section of \<^verbatim>\<open>inode_grow\<close> that handles the indirect blocks.\<close>

definition grow_indirect_tier :: "grow_stack \<Rightarrow> fs \<Rightarrow> inode_disk \<Rightarrow> nat \<Rightarrow> fs \<times> inode_disk \<times> nat" where
  "grow_indirect_tier g f di new_sectors =
     (case (if blocks di = DIRECT_BLOCKS
            then (case free_map_allocate f of (s, f1) \<Rightarrow>
                    (f1, di\<lparr>direct := (direct di)(DIRECT_BLOCKS := s)\<rparr>, buffer_init g))
            else (f, di, sector_words (cache_read f (direct di DIRECT_BLOCKS)))) of
        (f, di, buffer) \<Rightarrow>
          (case grow_indirect f di buffer new_sectors of (f, di, buffer, new_sectors) \<Rightarrow>
             (cache_write f (direct di DIRECT_BLOCKS) (words_sector buffer), di, new_sectors)))"

text \<open>
  The section that handles the doubly indirect blocks; it is entered with
  \<open>blocks \<ge> 140\<close>, so that \<open>blocks - 140\<close> does not wrap.
\<close>

definition grow_doubly_tier :: "grow_stack \<Rightarrow> fs \<Rightarrow> inode_disk \<Rightarrow> nat \<Rightarrow> fs \<times> inode_disk" where
  "grow_doubly_tier g f di new_sectors =
     (case (if blocks di = INDIRECT_BLOCKS
            then (case free_map_allocate f of (s, f1) \<Rightarrow>
                    (f1, di\<lparr>direct := (direct di)(DIRECT_BLOCKS + 1 := s)\<rparr>, buffer1_init g))
            else (f, di, sector_words (cache_read f (direct di (DIRECT_BLOCKS + 1))))) of
        (f, di, buffer1) \<Rightarrow>
          (let index1 = (blocks di - INDIRECT_BLOCKS) div INDIRECT_BLOCK_SIZE;
               index2 = (blocks di - INDIRECT_BLOCKS) mod INDIRECT_BLOCK_SIZE
           in (case grow_doubly f di buffer1 (buffer2_init g) index1 index2 new_sectors of
                 (f, di, buffer1) \<Rightarrow>
                   (cache_write f (direct di (DIRECT_BLOCKS + 1)) (words_sector buffer1), di))))"

definition inode_grow :: "grow_stack \<Rightarrow> fs \<Rightarrow> inode_disk \<Rightarrow> off_t \<Rightarrow> off_t \<times> inode_disk \<times> fs" where
  "inode_grow g f di len =
     (let new_sectors = size_t_sub (bytes_to_sectors len) (bytes_to_sectors (length_d di)) in
      if new_sectors = 0 then (len, di, f)
      else
        (case grow_direct f di new_sectors of (f, di, new_sectors, returned) \<Rightarrow>
         if returned then (len, di, f)
         else
           (case grow_indirect_tier g f di new_sectors of (f, di, new_sectors) \<Rightarrow>
            if new_sectors = 0 then (len, di, f)
            else
              (case grow_doubly_tier g f di new_sectors of (f, di) \<Rightarrow> (len, di, f)))))"

subsection \<open>The release engine\<close>

text \<open>
  \<^verbatim>\<open>DIV_ROUND_UP\<close> on \<^verbatim>\<open>size_t\<close> operands: the sum wraps at \<open>2 ^ 32\<close>.
\<close>

definition DIV_ROUND_UP_size_t :: "nat \<Rightarrow> nat \<Rightarrow> nat" where
  "DIV_ROUND_UP_size_t x step = ((x + step - 1) mod 2 ^ 32) div step"

function free_direct :: "fs \<Rightarrow> inode_disk \<Rightarrow> nat \<Rightarrow> nat \<Rightarrow> fs \<times> nat \<times> nat \<times> bool" where
  "free_direct f di sectors index =
     (if index < DIRECT_BLOCKS then
        let f1 = free_map_release f (direct di index);
            sectors1 = size_t_dec sectors;
            index1 = index + 1
        in if sectors1 = 0 then (f1, sectors1, index1, True)
           else free_direct f1 di sectors1 index1
      else (f, sectors, index, False))"
  by pat_completeness auto
termination
  by (relation "measure (\<lambda>(f, di, n, i). DIRECT_BLOCKS - i)") auto

text \<open>
  The loop \<^verbatim>\<open>for (i = 0; i < to_free; i++)\<close> over the entries of an index sector;
  the source has it twice, over \<^verbatim>\<open>buffer\<close> and over \<^verbatim>\<open>buffer2\<close>.
\<close>

function free_entries :: "fs \<Rightarrow> (nat \<Rightarrow> block_sector_t) \<Rightarrow> nat \<Rightarrow> nat \<Rightarrow> nat \<Rightarrow> fs \<times> nat" where
  "free_entries f buffer i to_free sectors =
     (if i < to_free then
        free_entries (free_map_release f (buffer i)) buffer (i + 1) to_free (size_t_dec sectors)
      else (f, sectors))"
  by pat_completeness auto
termination
  by (relation "measure (\<lambda>(f, b, i, n, k). n - i)") auto

text \<open>
  The loop over the slots of the double-indirect sector. \<^verbatim>\<open>buffer1\<close> has 128
  entries; reading \<^verbatim>\<open>buffer1[i]\<close> beyond them is undefined in C and the result
  \<open>None\<close> here.
\<close>

function free_doubly ::
  "fs \<Rightarrow> (nat \<Rightarrow> block_sector_t) \<Rightarrow> nat \<Rightarrow> nat \<Rightarrow> nat \<Rightarrow> fs option" where
  "free_doubly f buffer1 i doubly_blocks sectors =
     (if i < doubly_blocks then
        (if i < INDIRECT_BLOCK_SIZE then
           (let to_free = (if sectors < INDIRECT_BLOCK_SIZE then sectors else INDIRECT_BLOCK_SIZE);
                buffer2 = sector_words (cache_read f (buffer1 i))
            in (case free_entries f buffer2 0 to_free sectors of (f1, sectors1) \<Rightarrow>
                  free_doubly (free_map_release f1 (buffer1 i)) buffer1 (i + 1) doubly_blocks
                    sectors1))
         else None)
      else Some f)"
  by pat_completeness auto
termination
  by (relation "measure (\<lambda>(f, b, i, n, k). n - i)") auto

definition inode_free :: "fs \<Rightarrow> inode \<Rightarrow> fs option" where
  "inode_free f ino =
     (let di = data ino; sectors = bytes_to_sectors (length_d di); index = 0 in
      if sectors = 0 then Some f
      else
        (case free_direct f di sectors index of (f, sectors, index, returned) \<Rightarrow>
         if returned then Some f
         else
           (let buffer = sector_words (cache_read f (direct di index));
                to_free = (if sectors < INDIRECT_BLOCK_SIZE then sectors else INDIRECT_BLOCK_SIZE)
            in (case free_entries f buffer 0 to_free sectors of (f, sectors) \<Rightarrow>
                let f = free_map_release f (direct di index);
                    index = index + 1
                in if sectors = 0 then Some f
                   else
                     (let buffer1 = sector_words (cache_read f (direct di index));
                          doubly_blocks = DIV_ROUND_UP_size_t sectors INDIRECT_BLOCK_SIZE
                      in (case free_doubly f buffer1 0 doubly_blocks sectors of
                            None \<Rightarrow> None
                          | Some f \<Rightarrow> Some (free_map_release f (direct di index))))))))"

subsection \<open>Creation\<close>

text \<open>
  \<^verbatim>\<open>inode_create\<close>; \<open>mem\<close> tells whether \<^verbatim>\<open>calloc\<close> succeeds, and the failing
  \<^verbatim>\<open>ASSERT (length >= 0)\<close> is the result \<open>None\<close>.
\<close>

definition inode_create ::
  "grow_stack \<Rightarrow> bool \<Rightarrow> fs \<Rightarrow> block_sector_t \<Rightarrow> off_t \<Rightarrow> bool \<Rightarrow> (bool \<times> fs) option" where
  "inode_create g mem f sec len isdir =
     (if \<not> 0 \<le> len then None
      else if mem then
        (let disk_inode = \<lparr>length_d = 0, magic = INODE_MAGIC, unused = (\<lambda>_. 0),
                           direct = (\<lambda>_. 0), blocks = 0,
                           is_dir = (if isdir then 1 else 0), padding = (\<lambda>_. 0)\<rparr>
         in (case inode_grow g f disk_inode len of (l, disk_inode, f) \<Rightarrow>
               let disk_inode = disk_inode\<lparr>length_d := l\<rparr> in
               if length_d disk_inode = len
               then Some (True, cache_write f sec (inode_disk_sector disk_inode))
               else None))
      else Some (False, f))"

subsection \<open>Reading and writing\<close>

text \<open>
  \<open>mem\<close> tells whether the \<^verbatim>\<open>malloc\<close> of the bounce buffer succeeds. The caller's
  buffer is filled from its start: the loop carries the bytes stored in it so far.
\<close>

function read_loop ::
  "bool \<Rightarrow> fs \<Rightarrow> inode \<Rightarrow> off_t \<Rightarrow> off_t \<Rightarrow> off_t \<Rightarrow> byte list \<Rightarrow> off_t \<times> byte list" where
  "read_loop mem f ino sz offset bytes_read buffer =
     (if 0 < sz then
        (let sector_idx = byte_to_sector f ino offset;
             sector_ofs = offset smod int BLOCK_SECTOR_SIZE;
             inode_left = inode_length ino - offset;
             sector_left = int BLOCK_SECTOR_SIZE - sector_ofs;
             min_left = (if inode_left < sector_left then inode_left else sector_left);
             chunk_size = (if sz < min_left then sz else min_left)
         in if chunk_size \<le> 0 then (bytes_read, buffer)
            else if sector_ofs = 0 \<and> chunk_size = int BLOCK_SECTOR_SIZE then
              read_loop mem f ino (sz - chunk_size) (offset + chunk_size)
                (bytes_read + chunk_size) (buffer @ cache_read f sector_idx)
            else if \<not> mem then (bytes_read, buffer)
            else
              (let bounce = cache_read f sector_idx in
               read_loop mem f ino (sz - chunk_size) (offset + chunk_size)
                 (bytes_read + chunk_size)
                 (buffer @ take (nat chunk_size) (drop (nat sector_ofs) bounce))))
      else (bytes_read, buffer))"
  by pat_completeness auto
termination
  by (relation "measure (\<lambda>(mem, f, ino, sz, offset, n, b). nat sz)") (auto simp: Let_def)

definition inode_read_at :: "bool \<Rightarrow> fs \<Rightarrow> inode \<Rightarrow> off_t \<Rightarrow> off_t \<Rightarrow> off_t \<times> byte list" where
  "inode_read_at mem f ino sz offset = read_loop mem f ino sz offset 0 []"

function write_loop ::
  "bool \<Rightarrow> fs \<Rightarrow> inode \<Rightarrow> byte list \<Rightarrow> off_t \<Rightarrow> off_t \<Rightarrow> off_t \<Rightarrow> off_t \<times> fs" where
  "write_loop mem f ino buffer sz offset bytes_written =
     (if 0 < sz then
        (let sector_idx = byte_to_sector f ino offset;
             sector_ofs = offset smod int BLOCK_SECTOR_SIZE;
             inode_left = inode_length ino - offset;
             sector_left = int BLOCK_SECTOR_SIZE - sector_ofs;
             min_left = (if inode_left < sector_left then inode_left else sector_left);
             chunk_size = (if sz < min_left then sz else min_left)
         in if chunk_size \<le> 0 then (bytes_written, f)
            else if sector_ofs = 0 \<and> chunk_size = int BLOCK_SECTOR_SIZE then
              write_loop mem
                (cache_write f sector_idx
                   (take BLOCK_SECTOR_SIZE (drop (nat bytes_written) buffer)))
                ino buffer (sz - chunk_size) (offset + chunk_size) (bytes_written + chunk_size)
            else if \<not> mem then (bytes_written, f)
            else
              (let bounce = (if 0 < sector_ofs \<or> chunk_size < sector_left
                             then cache_read f sector_idx
                             else replicate BLOCK_SECTOR_SIZE 0);
                   bounce' = take (nat sector_ofs) bounce @
                             take (nat chunk_size) (drop (nat bytes_written) buffer) @
                             drop (nat sector_ofs + nat chunk_size) bounce
               in write_loop mem (cache_write f sector_idx bounce') ino buffer
                    (sz - chunk_size) (offset + chunk_size) (bytes_written + chunk_size)))
      else (bytes_written, f))"
  by pat_completeness auto
termination
  by (relation "measure (\<lambda>(mem, f, ino, b, sz, offset, n). nat sz)") (auto simp: Let_def)

definition inode_write_at ::
  "grow_stack \<Rightarrow> bool \<Rightarrow> fs \<Rightarrow> inode \<Rightarrow> byte list \<Rightarrow> off_t \<Rightarrow> off_t \<Rightarrow> off_t \<times> inode \<times> fs" where
  "inode_write_at g mem f ino buffer sz offset =
     (if deny_write_cnt ino \<noteq> 0 then (0, ino, f)
      else
        (case (if offset + sz > inode_length ino
               then (case inode_grow g f (data ino) (offset + sz) of (len, di, f1) \<Rightarrow>
                       let ino1 = ino\<lparr>data := di\<lparr>length_d := len\<rparr>\<rparr>
                       in (ino1, cache_write f1 (sector ino1) (inode_disk_sector (data ino1))))
               else (ino, f)) of
           (ino, f) \<Rightarrow>
             (case write_loop mem f ino buffer sz offset 0 of
                (bytes_written, f) \<Rightarrow> (bytes_written, ino, f))))"

text \<open>The failing \<^verbatim>\<open>ASSERT\<close> of the two functions is the result \<open>None\<close>.\<close>

definition inode_deny_write :: "inode \<Rightarrow> inode option" where
  "inode_deny_write ino =
     (let ino1 = ino\<lparr>deny_write_cnt := deny_write_cnt ino + 1\<rparr>
      in if deny_write_cnt ino1 \<le> open_cnt ino1 then Some ino1 else None)"

definition inode_allow_write :: "inode \<Rightarrow> inode option" where
  "inode_allow_write ino =
     (if \<not> 0 < deny_write_cnt ino then None
      else if \<not> deny_write_cnt ino \<le> open_cnt ino then None
      else Some (ino\<lparr>deny_write_cnt := deny_write_cnt ino - 1\<rparr>))"

subsection \<open>The registry of open inodes\<close>

text \<open>
  \<^verbatim>\<open>open_inodes\<close> is the list of the in-memory inodes, each at its address: a
  handle (\<^verbatim>\<open>struct inode *\<close>) is an address, or \<open>None\<close> for the null pointer.
  An inode is in the list from its \<^verbatim>\<open>malloc\<close> to its \<^verbatim>\<open>free\<close>, so a handle whose
  address is not in the list is dangling; using it is undefined in C and the
  result \<open>None\<close> here, as is a failing \<^verbatim>\<open>ASSERT\<close>.
\<close>

type_synonym handle = "nat option"

record kernel =
  files :: fs
  open_inodes :: "(nat \<times> inode) list"

definition inode_init :: "kernel \<Rightarrow> kernel" where
  "inode_init k = k\<lparr>open_inodes := []\<rparr>"

fun registry_find :: "(nat \<times> inode) list \<Rightarrow> block_sector_t \<Rightarrow> nat option" where
  "registry_find [] s = None"
| "registry_find ((a, ino) # es) s = (if sector ino = s then Some a else registry_find es s)"

definition update_inode ::
  "nat \<Rightarrow> (inode \<Rightarrow> inode) \<Rightarrow> (nat \<times> inode) list \<Rightarrow> (nat \<times> inode) list" where
  "update_inode a upd es = map (\<lambda>(a', ino). if a' = a then (a', upd ino) else (a', ino)) es"

definition list_remove :: "nat \<Rightarrow> (nat \<times> inode) list \<Rightarrow> (nat \<times> inode) list" where
  "list_remove a es = filter (\<lambda>(a', ino). a' \<noteq> a) es"

definition inode_reopen :: "kernel \<Rightarrow> handle \<Rightarrow> (handle \<times> kernel) option" where
  "inode_reopen k h =
     (case h of
        None \<Rightarrow> Some (None, k)
      | Some a \<Rightarrow>
          (case map_of (open_inodes k) a of
             None \<Rightarrow> None
           | Some ino \<Rightarrow>
               Some (Some a,
                 k\<lparr>open_inodes :=
                     update_inode a (\<lambda>i. i\<lparr>open_cnt := open_cnt i + 1\<rparr>) (open_inodes k)\<rparr>)))"

text \<open>\<open>m\<close> is what \<^verbatim>\<open>malloc\<close> returns if it is called: a new address or the null pointer.\<close>

definition inode_open :: "kernel \<Rightarrow> block_sector_t \<Rightarrow> nat option \<Rightarrow> (handle \<times> kernel) option" where
  "inode_open k s m =
     (case registry_find (open_inodes k) s of
        Some a \<Rightarrow> inode_reopen k (Some a)
      | None \<Rightarrow>
          (case m of
             None \<Rightarrow> Some (None, k)
           | Some a \<Rightarrow>
               Some (Some a,
                 k\<lparr>open_inodes :=
                     (a, \<lparr>sector = s, open_cnt = 1, removed = False, deny_write_cnt = 0,
                          data = sector_inode_disk (cache_read (files k) s)\<rparr>)
                     # open_inodes k\<rparr>)))"

definition inode_close :: "kernel \<Rightarrow> handle \<Rightarrow> kernel option" where
  "inode_close k h =
     (case h of
        None \<Rightarrow> Some k
      | Some a \<Rightarrow>
          (case map_of (open_inodes k) a of
             None \<Rightarrow> None
           | Some ino \<Rightarrow>
               (let es = update_inode a (\<lambda>i. i\<lparr>open_cnt := open_cnt i - 1\<rparr>) (open_inodes k);
                    ino = ino\<lparr>open_cnt := open_cnt ino - 1\<rparr>
                in if open_cnt ino = 0 then
                     (let es = list_remove a es in
                      if removed ino then
                        (case inode_free (free_map_release (files k) (sector ino)) ino of
                           None \<Rightarrow> None
                         | Some f \<Rightarrow> Some \<lparr>files = f, open_inodes = es\<rparr>)
                      else
                        Some \<lparr>files = cache_write (files k) (sector ino)
                                       (inode_disk_sector (data ino)),
                              open_inodes = es\<rparr>)
                   else Some (k\<lparr>open_inodes := es\<rparr>))))"

definition inode_remove :: "kernel \<Rightarrow> handle \<Rightarrow> kernel option" where
  "inode_remove k h =
     (case h of
        None \<Rightarrow> None
      | Some a \<Rightarrow>
          (case map_of (open_inodes k) a of
             None \<Rightarrow> None
           | Some ino \<Rightarrow>
               Some (k\<lparr>open_inodes :=
                        update_inode a (\<lambda>i. i\<lparr>removed := True\<rparr>) (open_inodes k)\<rparr>)))"

subsection \<open>Example states\<close>

text \<open>A blank disk with an exhausted free map, and an inode of 100000 bytes.\<close>

definition ex_fs :: fs where
  "ex_fs = \<lparr>disk = (\<lambda>_. zeros), free_map = []\<rparr>"

definition ex_inode :: inode where
  "ex_inode = \<lparr>sector = 1, open_cnt = 1, removed = False, deny_write_cnt = 0,
     data = \<lparr>length_d = 100000, magic = INODE_MAGIC, unused = (\<lambda>_. 0),
             direct = (\<lambda>i. 100 + of_nat i), blocks = 196, is_dir = 0,
             padding = (\<lambda>_. 0)\<rparr>\<rparr>"

definition ex_grow_stack :: grow_stack where
  "ex_grow_stack = \<lparr>buffer_init = (\<lambda>_. 0), buffer1_init = (\<lambda>_. 0), buffer2_init = (\<lambda>_. 0)\<rparr>"

text \<open>The record that \<^verbatim>\<open>inode_create\<close> starts from, and an empty registry.\<close>

definition new_disk_inode :: inode_disk where
  "new_disk_inode = \<lparr>length_d = 0, magic = INODE_MAGIC, unused = (\<lambda>_. 0),
     direct = (\<lambda>_. 0), blocks = 0, is_dir = 0, padding = (\<lambda>_. 0)\<rparr>"

definition ex_kernel :: kernel where
  "ex_kernel = \<lparr>files = ex_fs, open_inodes = []\<rparr>"

definition ex_inode_denied :: inode where
  "ex_inode_denied = ex_inode\<lparr>deny_write_cnt := 1\<rparr>"

definition ex_kernel1 :: kernel where
  "ex_kernel1 = \<lparr>files = ex_fs, open_inodes = [(0, ex_inode)]\<rparr>"

subsection \<open>Auxiliary notions for the properties\<close>

text \<open>The fields of the record that growth has no business with.\<close>

definition same_header :: "inode_disk \<Rightarrow> inode_disk \<Rightarrow> bool" where
  "same_header di di' \<longleftrightarrow>
     length_d di' = length_d di \<and> magic di' = magic di \<and> unused di' = unused di \<and>
     is_dir di' = is_dir di \<and> padding di' = padding di"

text \<open>The start of one round of the outer loop of the double-indirect tier: the slot's index sector and its entries.\<close>

definition slot_start ::
  "fs \<Rightarrow> (nat \<Rightarrow> block_sector_t) \<Rightarrow> (nat \<Rightarrow> block_sector_t) \<Rightarrow> nat \<Rightarrow> nat
     \<Rightarrow> fs \<times> (nat \<Rightarrow> block_sector_t) \<times> (nat \<Rightarrow> block_sector_t)" where
  "slot_start f b1 b2 i1 i2 =
     (if i2 = 0 then (snd (free_map_allocate f), b1(i1 := fst (free_map_allocate f)), b2)
      else (f, b1, sector_words (cache_read f (b1 i1))))"

text \<open>An operation on an inode that may fail, done \<open>n\<close> times in a row.\<close>

fun repeat_op :: "nat \<Rightarrow> (inode \<Rightarrow> inode option) \<Rightarrow> inode \<Rightarrow> inode option" where
  "repeat_op 0 op ino = Some ino"
| "repeat_op (Suc n) op ino = (case op ino of None \<Rightarrow> None | Some ino' \<Rightarrow> repeat_op n op ino')"

text \<open>
  The registry holds each address once and each sector once; the kernels that
  the operations of the registry reach from an empty registry. A \<^verbatim>\<open>malloc\<close>
  returns an address that is not in use; the other operations on an open inode
  change its fields but never its sector.
\<close>

definition registry_ok :: "kernel \<Rightarrow> bool" where
  "registry_ok k \<longleftrightarrow>
     distinct (map fst (open_inodes k)) \<and> distinct (map (\<lambda>e. sector (snd e)) (open_inodes k))"

inductive reachable :: "kernel \<Rightarrow> bool" where
  r_init: "reachable (inode_init k)"
| r_open: "reachable k \<Longrightarrow> (\<forall>a. m = Some a \<longrightarrow> a \<notin> fst ` set (open_inodes k)) \<Longrightarrow>
     inode_open k s m = Some (h, k') \<Longrightarrow> reachable k'"
| r_reopen: "reachable k \<Longrightarrow> inode_reopen k h = Some (h', k') \<Longrightarrow> reachable k'"
| r_close: "reachable k \<Longrightarrow> inode_close k h = Some k' \<Longrightarrow> reachable k'"
| r_remove: "reachable k \<Longrightarrow> inode_remove k h = Some k' \<Longrightarrow> reachable k'"
| r_update: "reachable k \<Longrightarrow> (\<forall>i. sector (upd i) = sector i) \<Longrightarrow>
     reachable \<lparr>files = f', open_inodes = update_inode a upd (open_inodes k)\<rparr>"

text \<open>
  The block map as the resolver reads it: the entries of the single-indirect
  sector, of the double-indirect sector and of the sector of one of its slots;
  the data sector of block \<open>i\<close>; the data sectors of the first \<open>n\<close> blocks and the
  index sectors that \<open>n\<close> blocks need.
\<close>

definition ind_buf :: "fs \<Rightarrow> inode_disk \<Rightarrow> nat \<Rightarrow> block_sector_t" where
  "ind_buf f di = sector_words (disk f (direct di 12))"

definition top_buf :: "fs \<Rightarrow> inode_disk \<Rightarrow> nat \<Rightarrow> block_sector_t" where
  "top_buf f di = sector_words (disk f (direct di 13))"

definition slot_buf :: "fs \<Rightarrow> inode_disk \<Rightarrow> nat \<Rightarrow> nat \<Rightarrow> block_sector_t" where
  "slot_buf f di outer = sector_words (disk f (top_buf f di outer))"

definition data_sector :: "fs \<Rightarrow> inode_disk \<Rightarrow> nat \<Rightarrow> block_sector_t" where
  "data_sector f di i =
     (if i < 12 then direct di i
      else if i < 140 then ind_buf f di (i - 12)
      else slot_buf f di ((i - 140) div 128) ((i - 140) mod 128))"

definition data_sectors :: "fs \<Rightarrow> inode_disk \<Rightarrow> nat \<Rightarrow> block_sector_t list" where
  "data_sectors f di n = map (data_sector f di) [0..<n]"

definition slots_used :: "nat \<Rightarrow> nat" where
  "slots_used n = (n - 140 + 127) div 128"

definition index_sectors :: "fs \<Rightarrow> inode_disk \<Rightarrow> nat \<Rightarrow> block_sector_t list" where
  "index_sectors f di n =
     (if 12 < n then [direct di 12] else []) @
     (if 140 < n then direct di 13 # map (top_buf f di) [0..<slots_used n] else [])"

text \<open>
  The order of release that the spec gives for a record of \<open>n\<close> sectors: the
  direct data sectors; the data sectors of the single-indirect tier and then its
  index sector; for each slot of the double-indirect tier its data sectors and
  then its index sector; at last the double-indirect sector.
\<close>

definition release_order :: "fs \<Rightarrow> inode_disk \<Rightarrow> nat \<Rightarrow> block_sector_t list" where
  "release_order f di n =
     map (direct di) [0..<min n 12] @
     (if 12 < n then map (ind_buf f di) [0..<min (n - 12) 128] @ [direct di 12] else []) @
     (if 140 < n
      then concat (map (\<lambda>outer. map (slot_buf f di outer) [0..<min (n - 140 - 128 * outer) 128] @
                                  [top_buf f di outer]) [0..<slots_used n]) @
           [direct di 13]
      else [])"

text \<open>What the release engine releases for one slot of a double-indirect tier of \<open>c\<close> blocks.\<close>

definition slot_releases ::
  "fs \<Rightarrow> (nat \<Rightarrow> block_sector_t) \<Rightarrow> nat \<Rightarrow> nat \<Rightarrow> block_sector_t list" where
  "slot_releases f b1 c outer =
     map (sector_words (disk f (b1 outer))) [0..<min (c - 128 * outer) 128] @ [b1 outer]"

text \<open>
  The effect of a loop that allocates the sectors \<open>as\<close> one after the other,
  stores them in an array from index \<open>p\<close> on and writes zeros to each.
\<close>

definition place :: "(nat \<Rightarrow> block_sector_t) \<Rightarrow> nat \<Rightarrow> block_sector_t list \<Rightarrow> nat \<Rightarrow> block_sector_t" where
  "place arr p as = (\<lambda>k. if p \<le> k \<and> k < p + length as then as ! (k - p) else arr k)"

definition zero_fill :: "block_sector_t list \<Rightarrow> block_sector_t list \<Rightarrow> fs \<Rightarrow> fs" where
  "zero_fill as rest f =
     \<lparr>disk = (\<lambda>s. if s \<in> set as then zeros else disk f s), free_map = rest\<rparr>"

text \<open>
  Growth seen on the block map: the data sectors \<open>D\<close> and the index sectors \<open>I\<close>
  become \<open>D'\<close> and \<open>I'\<close> by taking the sectors \<open>used\<close> from the head of the free
  map; each sector taken is one new data sector or one new index sector, the
  new data sectors hold zeros, and no sector outside \<open>used\<close> and \<open>I\<close> is written.
\<close>

definition extends ::
  "block_sector_t list \<Rightarrow> block_sector_t list \<Rightarrow> fs \<Rightarrow> block_sector_t list \<Rightarrow>
   block_sector_t list \<Rightarrow> block_sector_t list \<Rightarrow> fs \<Rightarrow> bool" where
  "extends D I f used D' I' f' \<longleftrightarrow>
     (\<exists>nd ni. D' = D @ nd \<and> I' = I @ ni \<and> mset used = mset nd + mset ni \<and>
        (\<forall>s\<in>set nd. disk f' s = zeros)) \<and>
     free_map f = used @ free_map f' \<and>
     (\<forall>s. s \<notin> set used \<and> s \<notin> set I \<longrightarrow> disk f' s = disk f s)"

text \<open>
  The double-indirect tier as the growth engine holds it while it runs, with
  the double-indirect sector in the array \<open>b1\<close>: the data sectors of its first
  \<open>c\<close> blocks and the sectors of the slots that \<open>c\<close> blocks use.
\<close>

definition slot_count :: "nat \<Rightarrow> nat" where
  "slot_count c = (c + 127) div 128"

definition dbl_data :: "fs \<Rightarrow> (nat \<Rightarrow> block_sector_t) \<Rightarrow> nat \<Rightarrow> block_sector_t list" where
  "dbl_data f b1 c = map (\<lambda>k. sector_words (disk f (b1 (k div 128))) (k mod 128)) [0..<c]"

definition dbl_slots :: "(nat \<Rightarrow> block_sector_t) \<Rightarrow> nat \<Rightarrow> block_sector_t list" where
  "dbl_slots b1 c = map b1 [0..<slot_count c]"

text \<open>One round of the outer loop of the double-indirect tier, up to its \<^verbatim>\<open>cache_write\<close>.\<close>

definition slot_round ::
  "fs \<Rightarrow> inode_disk \<Rightarrow> (nat \<Rightarrow> block_sector_t) \<Rightarrow> (nat \<Rightarrow> block_sector_t) \<Rightarrow> nat \<Rightarrow> nat \<Rightarrow> nat
     \<Rightarrow> fs \<times> inode_disk \<times> (nat \<Rightarrow> block_sector_t) \<times> (nat \<Rightarrow> block_sector_t) \<times> nat" where
  "slot_round f di b1 b2 i1 i2 n =
     (case slot_start f b1 b2 i1 i2 of (f1, b1', b2') \<Rightarrow>
        (case grow_doubly_inner f1 di b2' i2 n of (f2, di2, b2'', i2', n') \<Rightarrow>
           (cache_write f2 (b1' i1) (words_sector b2''), di2, b1', b2'', n')))"

text \<open>
  A well-formed block map: within the 16524 blocks that can be addressed, and
  with data sectors, index sectors and free sectors all different. Growth of a
  record in a file system, on its block map.
\<close>

definition blockmap_ok :: "fs \<Rightarrow> inode_disk \<Rightarrow> bool" where
  "blockmap_ok f di \<longleftrightarrow>
     blocks di \<le> 16524 \<and>
     distinct (data_sectors f di (blocks di) @ index_sectors f di (blocks di) @ free_map f)"

definition grows :: "fs \<Rightarrow> inode_disk \<Rightarrow> block_sector_t list \<Rightarrow> fs \<Rightarrow> inode_disk \<Rightarrow> bool" where
  "grows f di used f' di' \<longleftrightarrow>
     same_header di di' \<and>
     extends (data_sectors f di (blocks di)) (index_sectors f di (blocks di)) f used
       (data_sectors f' di' (blocks di')) (index_sectors f' di' (blocks di')) f'"

text \<open>The number of index sectors that \<open>n\<close> blocks use.\<close>

definition index_count :: "nat \<Rightarrow> nat" where
  "index_count n = (if 12 < n then 1 else 0) + (if 140 < n then 1 + slots_used n else 0)"

subsection \<open>Further example states\<close>

text \<open>
  A file system with three free sectors, and a record that uses all of the
  16524 blocks that the block map can address.
\<close>

definition ex_fs_pool :: fs where
  "ex_fs_pool = \<lparr>disk = (\<lambda>_. zeros), free_map = [20, 21, 22]\<rparr>"

definition ex_full_disk :: inode_disk where
  "ex_full_disk = \<lparr>length_d = 8460288, magic = INODE_MAGIC, unused = (\<lambda>_. 0),
     direct = (\<lambda>i. 100 + of_nat i), blocks = 16524, is_dir = 0, padding = (\<lambda>_. 0)\<rparr>"

text \<open>
  A freshly created inode at sector 1, and a file system with the fourteen
  free sectors that thirteen blocks need: thirteen data sectors and the
  single-indirect index sector.
\<close>

definition ex_new_inode :: inode where
  "ex_new_inode = \<lparr>sector = 1, open_cnt = 1, removed = False, deny_write_cnt = 0,
     data = new_disk_inode\<rparr>"

definition ex_fs_tiers :: fs where
  "ex_fs_tiers = \<lparr>disk = (\<lambda>_. zeros),
     free_map = [20, 21, 22, 23, 24, 25, 26, 27, 28, 29, 30, 31, 32, 33]\<rparr>"

text \<open>
  A disk that holds a block map of distinct sectors: block \<open>i\<close> of a file is
  sector \<open>1000 + i\<close>, the single-indirect sector is 500, the double-indirect
  sector is 501 and the index sector of its slot \<open>outer\<close> is \<open>600 + outer\<close>. On
  it, the record of a file of a given length, an inode of 150000 bytes (293
  sectors, over all three tiers) and one of 6145 bytes (13 sectors).
\<close>

definition ex_disk_pat :: "block_sector_t \<Rightarrow> byte list" where
  "ex_disk_pat s =
     (if unat s = 500 then words_sector (\<lambda>j. of_nat (1012 + j))
      else if unat s = 501 then words_sector (\<lambda>outer. of_nat (600 + outer))
      else if 600 \<le> unat s \<and> unat s < 728
      then words_sector (\<lambda>j. of_nat (1140 + 128 * (unat s - 600) + j))
      else zeros)"

definition ex_fs_pat :: fs where
  "ex_fs_pat = \<lparr>disk = ex_disk_pat, free_map = []\<rparr>"

definition ex_disk_inode_pat :: "off_t \<Rightarrow> inode_disk" where
  "ex_disk_inode_pat len =
     \<lparr>length_d = len, magic = INODE_MAGIC, unused = (\<lambda>_. 0),
      direct = (\<lambda>i. if i = 12 then 500 else if i = 13 then 501 else of_nat (1000 + i)),
      blocks = bytes_to_sectors len, is_dir = 0, padding = (\<lambda>_. 0)\<rparr>"

definition ex_inode_pat :: inode where
  "ex_inode_pat = \<lparr>sector = 1, open_cnt = 1, removed = False, deny_write_cnt = 0,
     data = ex_disk_inode_pat 150000\<rparr>"

definition ex_inode_small :: inode where
  "ex_inode_small = \<lparr>sector = 1, open_cnt = 1, removed = False, deny_write_cnt = 0,
     data = ex_disk_inode_pat 6145\<rparr>"

definition ex_kernel_one :: kernel where
  "ex_kernel_one = \<lparr>files = ex_fs_pat, open_inodes = [(0, ex_inode_small)]\<rparr>"

definition ex_kernel_two :: kernel where
  "ex_kernel_two = \<lparr>files = ex_fs_pat, open_inodes = [(0, ex_inode_small\<lparr>open_cnt := 2\<rparr>)]\<rparr>"

text \<open>An inode at sector 1 whose file uses all of the 16524 addressable blocks.\<close>

definition ex_full_inode :: inode where
  "ex_full_inode = \<lparr>sector = 1, open_cnt = 1, removed = False, deny_write_cnt = 0,
     data = ex_full_disk\<rparr>"

text \<open>The first 127 words of the record as it is stored.\<close>

definition record_words :: "inode_disk \<Rightarrow> nat \<Rightarrow> 32 word" where
  "record_words di i =
     (if i = 0 then word_of_int (length_d di)
      else if i = 1 then magic di
      else if i < 112 then unused di (i - 2)
      else if i < 126 then direct di (i - 112)
      else word_of_nat (blocks di))"

section \<open>Properties\<close>

subsection \<open>Arithmetic and byte-level helpers\<close>


lemma size_t_nonneg: "0 \<le> x \<Longrightarrow> x < 2 ^ 32 \<Longrightarrow> size_t x = nat x"
  by (simp add: size_t_def)

lemma size_t_less: "size_t x < 2 ^ 32"
  unfolding size_t_def by (simp add: nat_less_iff)

lemma size_t_sub_le: "b \<le> a \<Longrightarrow> a < 2 ^ 32 \<Longrightarrow> size_t_sub a b = a - b"
proof -
  assume "b \<le> a" "a < 2 ^ 32"
  then have "a + 2 ^ 32 - b mod 2 ^ 32 = (a - b) + 2 ^ 32" by simp
  then show ?thesis using \<open>a < 2 ^ 32\<close> by (simp add: size_t_sub_def)
qed

lemma size_t_dec_pos: "0 < n \<Longrightarrow> n < 2 ^ 32 \<Longrightarrow> size_t_dec n = n - 1"
  by (simp add: size_t_dec_def size_t_sub_le)

lemma bytes_to_sectors_nonneg:
  "0 \<le> x \<Longrightarrow> x < 2 ^ 31 \<Longrightarrow> bytes_to_sectors x = nat ((x + 511) div 512)"
  unfolding bytes_to_sectors_def DIV_ROUND_UP_def
  by (simp add: signed_divide_int_def size_t_def sgn_if)

lemma bytes_to_sectors_less: "bytes_to_sectors x < 2 ^ 32"
  unfolding bytes_to_sectors_def by (rule size_t_less)

lemma word_le32_le32:
  "word_le32 (ucast w) (ucast (drop_bit 8 w)) (ucast (drop_bit 16 w)) (ucast (drop_bit 24 w)) = w"
  unfolding word_le32_def
  apply (rule bit_word_eqI)
  apply (auto simp: bit_simps)
  subgoal for n by (cases "n < 24") simp_all
  done

lemma length_le32: "length (le32 w) = 4"
  by (simp add: le32_def)

lemma length_words_bytes: "length (words_bytes f n) = 4 * n"
  unfolding words_bytes_def by (induction n) (simp_all add: length_le32)

lemma words_bytes_nth:
  "i < n \<Longrightarrow> j < 4 \<Longrightarrow> words_bytes f n ! (4 * i + j) = le32 (f i) ! j"
proof (induction n)
  case 0 then show ?case by simp
next
  case (Suc n)
  have wb: "words_bytes f (Suc n) = words_bytes f n @ le32 (f n)"
    by (simp add: words_bytes_def)
  show ?case
  proof (cases "i < n")
    case True
    with Suc show ?thesis by (simp add: wb nth_append length_words_bytes)
  next
    case False
    with Suc have "i = n" by simp
    with Suc show ?thesis by (simp add: wb nth_append length_words_bytes)
  qed
qed

lemma sector_words_words_bytes:
  "i < n \<Longrightarrow> sector_words (words_bytes f n) i = f i"
proof -
  assume i: "i < n"
  have "\<And>j. j < 4 \<Longrightarrow> words_bytes f n ! (4 * i + j) = le32 (f i) ! j"
    using i by (rule words_bytes_nth)
  from this[of 0] this[of 1] this[of 2] this[of 3]
  show ?thesis
    by (simp add: sector_words_def le32_def word_le32_le32)
qed

lemma sector_words_words_sector:
  "i < 128 \<Longrightarrow> sector_words (words_sector f) i = f i"
  by (simp add: words_sector_def sector_words_words_bytes)

lemma length_words_sector: "length (words_sector f) = 512"
  by (simp add: words_sector_def length_words_bytes)

lemma length_zeros: "length zeros = 512"
  by (simp add: zeros_def)


lemma size_t_sdiv_pos:
  "0 \<le> pos \<Longrightarrow> nat (pos div 512) < 2 ^ 32 \<Longrightarrow> size_t (pos sdiv 512) = nat (pos div 512)"
  by (simp add: signed_divide_int_def size_t_def sgn_if)

subsection \<open>The resolver\<close>

text \<open>
  C3: at or beyond the inode's length the resolver returns the invalid sector.
  Below it, with \<open>index = pos div 512\<close>, it returns the direct pointer when
  \<open>index < 12\<close>, entry \<open>index - 12\<close> of the single-indirect sector when
  \<open>12 \<le> index < 140\<close>, and entry \<open>(index - 140) mod 128\<close> of the sector that entry
  \<open>(index - 140) div 128\<close> of the double-indirect sector points to when
  \<open>140 \<le> index < 16524\<close>. The resolver is a function of the file system and the
  inode that returns a sector number only: it changes neither.
\<close>

theorem byte_to_sector_tiers:
  "(inode_length ino \<le> pos \<longrightarrow> byte_to_sector f ino pos = INVALID_SECTOR) \<and>
   (0 \<le> pos \<and> pos < inode_length ino \<longrightarrow>
      (let index = nat (pos div int BLOCK_SECTOR_SIZE) in
       (index < 12 \<longrightarrow> byte_to_sector f ino pos = direct (data ino) index) \<and>
       (12 \<le> index \<and> index < 140 \<longrightarrow>
          byte_to_sector f ino pos =
            sector_words (cache_read f (direct (data ino) 12)) (index - 12)) \<and>
       (140 \<le> index \<and> index < 16524 \<longrightarrow>
          (let outer = (index - 140) div 128; inner = (index - 140) mod 128 in
           byte_to_sector f ino pos =
             sector_words
               (cache_read f (sector_words (cache_read f (direct (data ino) 13)) outer))
               inner))))"
proof -
  have a: "inode_length ino \<le> pos \<Longrightarrow> byte_to_sector f ino pos = INVALID_SECTOR"
    by (simp add: byte_to_sector_def inode_length_def)
  have b: "byte_to_sector f ino pos = direct (data ino) (nat (pos div 512))"
    if "0 \<le> pos" "pos < inode_length ino" "nat (pos div 512) < 12"
    using that by (simp add: byte_to_sector_def inode_length_def size_t_sdiv_pos)
  have c: "byte_to_sector f ino pos =
      sector_words (cache_read f (direct (data ino) 12)) (nat (pos div 512) - 12)"
    if "0 \<le> pos" "pos < inode_length ino" "12 \<le> nat (pos div 512)" "nat (pos div 512) < 140"
    using that by (simp add: byte_to_sector_def inode_length_def size_t_sdiv_pos)
  have d: "byte_to_sector f ino pos =
      sector_words (cache_read f (sector_words (cache_read f (direct (data ino) 13))
        ((nat (pos div 512) - 140) div 128))) ((nat (pos div 512) - 140) mod 128)"
    if "0 \<le> pos" "pos < inode_length ino" "140 \<le> nat (pos div 512)" "nat (pos div 512) < 16524"
    using that by (simp add: byte_to_sector_def inode_length_def size_t_sdiv_pos Let_def)
  show ?thesis
    using a b c d by (simp add: Let_def)
qed

theorem byte_to_sector_tiers_witness:
  "inode_length ex_inode \<le> 100000 \<and> byte_to_sector ex_fs ex_inode 100000 = INVALID_SECTOR \<and>
   0 \<le> (700::int) \<and> 700 < inode_length ex_inode \<and> nat (700 div int BLOCK_SECTOR_SIZE) < 12 \<and>
   byte_to_sector ex_fs ex_inode 700 = direct (data ex_inode) 1"
  using byte_to_sector_tiers [of ex_inode 100000 ex_fs] byte_to_sector_tiers [of ex_inode 700 ex_fs]
  by (simp add: ex_inode_def inode_length_def)

subsection \<open>Null handles\<close>

text \<open>
  C10: closing the null handle returns at once and leaves the registry and the
  storage as they are; reopening the null handle returns the null handle and
  increments no count.
\<close>

theorem null_handle_ignored:
  "inode_close k None = Some k \<and> inode_reopen k None = Some (None, k)"
  by (simp add: inode_close_def inode_reopen_def)

declare grow_direct.simps [simp del] grow_indirect.simps [simp del]
  grow_doubly_inner.simps [simp del] grow_doubly.simps [simp del]

subsection \<open>Unfolding the loops of the growth engine\<close>

lemma grow_direct_stop: "\<not> blocks di < 12 \<Longrightarrow> grow_direct f di n = (f, di, n, False)"
  by (simp add: grow_direct.simps)

lemma grow_direct_step:
  "blocks di < 12 \<Longrightarrow>
   grow_direct f di n =
     (let s = fst (free_map_allocate f);
          f2 = cache_write (snd (free_map_allocate f)) s zeros;
          di2 = di\<lparr>direct := (direct di)(blocks di := s), blocks := blocks di + 1\<rparr>
      in if size_t_dec n = 0 then (f2, di2, 0, True) else grow_direct f2 di2 (size_t_dec n))"
  by (subst grow_direct.simps) (simp add: Let_def split: prod.splits)

lemma grow_indirect_stop: "\<not> blocks di < 140 \<Longrightarrow> grow_indirect f di b n = (f, di, b, n)"
  by (simp add: grow_indirect.simps)

lemma grow_indirect_step:
  "blocks di < 140 \<Longrightarrow>
   grow_indirect f di b n =
     (let s = fst (free_map_allocate f);
          f2 = cache_write (snd (free_map_allocate f)) s zeros;
          b2 = b(blocks di - 12 := s);
          di2 = di\<lparr>blocks := blocks di + 1\<rparr>
      in if size_t_dec n = 0 then (f2, di2, b2, 0) else grow_indirect f2 di2 b2 (size_t_dec n))"
  by (subst grow_indirect.simps) (simp add: Let_def split: prod.splits)

lemma grow_doubly_inner_stop:
  "\<not> i < 128 \<Longrightarrow> grow_doubly_inner f di b i n = (f, di, b, i, n)"
  by (simp add: grow_doubly_inner.simps)

lemma grow_doubly_inner_step:
  "i < 128 \<Longrightarrow>
   grow_doubly_inner f di b i n =
     (let s = fst (free_map_allocate f);
          f2 = cache_write (snd (free_map_allocate f)) s zeros;
          b2 = b(i := s);
          di2 = di\<lparr>blocks := blocks di + 1\<rparr>
      in if size_t_dec n = 0 then (f2, di2, b2, i + 1, 0)
         else grow_doubly_inner f2 di2 b2 (i + 1) (size_t_dec n))"
  by (subst grow_doubly_inner.simps) (simp add: Let_def split: prod.splits)

lemma grow_doubly_stop: "\<not> i1 < 128 \<Longrightarrow> grow_doubly f di b1 b2 i1 i2 n = (f, di, b1)"
  by (simp add: grow_doubly.simps)

lemma grow_doubly_step:
  "i1 < 128 \<Longrightarrow>
   grow_doubly f di b1 b2 i1 i2 n =
     (case slot_start f b1 b2 i1 i2 of (f1, b1', b2') \<Rightarrow>
        (case grow_doubly_inner f1 di b2' i2 n of (f2, di2, b2'', i2', n') \<Rightarrow>
           let f3 = cache_write f2 (b1' i1) (words_sector b2'')
           in if n' = 0 then (f3, di2, b1') else grow_doubly f3 di2 b1' b2'' (i1 + 1) 0 n'))"
  by (subst grow_doubly.simps) (simp add: Let_def slot_start_def split: prod.splits)

subsection \<open>Growth leaves the length field alone\<close>

lemma same_header_refl: "same_header di di"
  by (simp add: same_header_def)

lemma same_header_trans: "same_header a b \<Longrightarrow> same_header b c \<Longrightarrow> same_header a c"
  by (simp add: same_header_def)

lemma grow_direct_header:
  "grow_direct f di n = (f', di', n', r) \<Longrightarrow> same_header di di'"
proof (induction "12 - blocks di" arbitrary: f di n)
  case 0
  then show ?case by (simp add: grow_direct_stop same_header_def)
next
  case (Suc k)
  then have lt: "blocks di < 12" by simp
  let ?s = "fst (free_map_allocate f)"
  let ?f2 = "cache_write (snd (free_map_allocate f)) ?s zeros"
  let ?di2 = "di\<lparr>direct := (direct di)(blocks di := ?s), blocks := blocks di + 1\<rparr>"
  show ?case
  proof (cases "size_t_dec n = 0")
    case True
    with Suc.prems lt have "di' = ?di2"
      by (simp add: grow_direct_step Let_def)
    then show ?thesis by (simp add: same_header_def)
  next
    case False
    with Suc.prems lt have "grow_direct ?f2 ?di2 (size_t_dec n) = (f', di', n', r)"
      by (simp add: grow_direct_step Let_def)
    moreover have "k = 12 - blocks ?di2" using Suc.hyps(2) by simp
    ultimately have "same_header ?di2 di'" by (rule Suc.hyps(1)[rotated])
    then show ?thesis by (simp add: same_header_def)
  qed
qed

lemma grow_indirect_header:
  "grow_indirect f di b n = (f', di', b', n') \<Longrightarrow> same_header di di'"
proof (induction "140 - blocks di" arbitrary: f di b n)
  case 0
  then show ?case by (simp add: grow_indirect_stop same_header_def)
next
  case (Suc k)
  then have lt: "blocks di < 140" by simp
  let ?s = "fst (free_map_allocate f)"
  let ?f2 = "cache_write (snd (free_map_allocate f)) ?s zeros"
  let ?b2 = "b(blocks di - 12 := ?s)"
  let ?di2 = "di\<lparr>blocks := blocks di + 1\<rparr>"
  show ?case
  proof (cases "size_t_dec n = 0")
    case True
    with Suc.prems lt have "di' = ?di2"
      by (simp add: grow_indirect_step Let_def)
    then show ?thesis by (simp add: same_header_def)
  next
    case False
    with Suc.prems lt have "grow_indirect ?f2 ?di2 ?b2 (size_t_dec n) = (f', di', b', n')"
      by (simp add: grow_indirect_step Let_def)
    moreover have "k = 140 - blocks ?di2" using Suc.hyps(2) by simp
    ultimately have "same_header ?di2 di'" by (rule Suc.hyps(1)[rotated])
    then show ?thesis by (simp add: same_header_def)
  qed
qed

lemma grow_doubly_inner_header:
  "grow_doubly_inner f di b i n = (f', di', b', i', n') \<Longrightarrow> same_header di di'"
proof (induction "128 - i" arbitrary: f di b i n)
  case 0
  then show ?case by (simp add: grow_doubly_inner_stop same_header_def)
next
  case (Suc k)
  then have lt: "i < 128" by simp
  let ?s = "fst (free_map_allocate f)"
  let ?f2 = "cache_write (snd (free_map_allocate f)) ?s zeros"
  let ?b2 = "b(i := ?s)"
  let ?di2 = "di\<lparr>blocks := blocks di + 1\<rparr>"
  show ?case
  proof (cases "size_t_dec n = 0")
    case True
    with Suc.prems lt have "di' = ?di2"
      by (simp add: grow_doubly_inner_step Let_def)
    then show ?thesis by (simp add: same_header_def)
  next
    case False
    with Suc.prems lt
    have "grow_doubly_inner ?f2 ?di2 ?b2 (i + 1) (size_t_dec n) = (f', di', b', i', n')"
      by (simp add: grow_doubly_inner_step Let_def)
    moreover have "k = 128 - (i + 1)" using Suc.hyps(2) by simp
    ultimately have "same_header ?di2 di'" by (rule Suc.hyps(1)[rotated])
    then show ?thesis by (simp add: same_header_def)
  qed
qed

lemma grow_doubly_header:
  "grow_doubly f di b1 b2 i1 i2 n = (f', di', b1') \<Longrightarrow> same_header di di'"
proof (induction "128 - i1" arbitrary: f di b1 b2 i1 i2 n)
  case 0
  then show ?case by (simp add: grow_doubly_stop same_header_def)
next
  case (Suc k)
  then have lt: "i1 < 128" by simp
  obtain f1 c1 c2 where st: "slot_start f b1 b2 i1 i2 = (f1, c1, c2)"
    by (cases "slot_start f b1 b2 i1 i2") auto
  obtain f2 di2 c3 j n2 where inner: "grow_doubly_inner f1 di c2 i2 n = (f2, di2, c3, j, n2)"
    by (cases "grow_doubly_inner f1 di c2 i2 n") auto
  have h: "same_header di di2" using inner by (rule grow_doubly_inner_header)
  show ?case
  proof (cases "n2 = 0")
    case True
    with Suc.prems lt st inner have "di' = di2"
      by (simp add: grow_doubly_step Let_def)
    with h show ?thesis by simp
  next
    case False
    with Suc.prems lt st inner
    have "grow_doubly (cache_write f2 (c1 i1) (words_sector c3)) di2 c1 c3 (i1 + 1) 0 n2 =
            (f', di', b1')"
      by (simp add: grow_doubly_step Let_def)
    moreover have "k = 128 - (i1 + 1)" using Suc.hyps(2) by simp
    ultimately have "same_header di2 di'" by (rule Suc.hyps(1)[rotated])
    with h show ?thesis by (rule same_header_trans)
  qed
qed

lemma grow_indirect_tier_header:
  "grow_indirect_tier g f di n = (f', di', n') \<Longrightarrow> same_header di di'"
  unfolding grow_indirect_tier_def
  by (auto simp: same_header_def split: prod.splits if_splits dest!: grow_indirect_header)

lemma grow_doubly_tier_header:
  "grow_doubly_tier g f di n = (f', di') \<Longrightarrow> same_header di di'"
  unfolding grow_doubly_tier_def
  by (auto simp: same_header_def Let_def split: prod.splits if_splits dest!: grow_doubly_header)

lemma inode_grow_header:
  "inode_grow g f di len = (l, di', f') \<Longrightarrow> same_header di di'"
proof -
  assume a: "inode_grow g f di len = (l, di', f')"
  let ?n = "size_t_sub (bytes_to_sectors len) (bytes_to_sectors (length_d di))"
  obtain f1 di1 n1 r1 where d: "grow_direct f di ?n = (f1, di1, n1, r1)"
    by (cases "grow_direct f di ?n") auto
  obtain f2 di2 n2 where i: "grow_indirect_tier g f1 di1 n1 = (f2, di2, n2)"
    by (cases "grow_indirect_tier g f1 di1 n1") auto
  obtain f3 di3 where t: "grow_doubly_tier g f2 di2 n2 = (f3, di3)"
    by (cases "grow_doubly_tier g f2 di2 n2") auto
  have h1: "same_header di di1" using d by (rule grow_direct_header)
  have h2: "same_header di di2" using h1 grow_indirect_tier_header[OF i] by (rule same_header_trans)
  have h3: "same_header di di3" using h2 grow_doubly_tier_header[OF t] by (rule same_header_trans)
  have "di' = di \<or> di' = di1 \<or> di' = di2 \<or> di' = di3"
    using a d i t by (simp add: inode_grow_def Let_def split: if_splits)
  with h1 h2 h3 show ?thesis by (auto simp: same_header_refl)
qed

lemma size_t_sub_self: "a < 2 ^ 32 \<Longrightarrow> size_t_sub a a = 0"
  by (simp add: size_t_sub_le)

text \<open>
  C9: \<^verbatim>\<open>inode_grow\<close> never writes the length field of the record, whatever the
  record and the target are; and when the target needs as many sectors as the
  current length, it allocates nothing, writes no sector, leaves the record as
  it is and returns the target.
\<close>

theorem inode_grow_keeps_length:
  "length_d (fst (snd (inode_grow g f di len))) = length_d di \<and>
   (bytes_to_sectors len = bytes_to_sectors (length_d di) \<longrightarrow>
      inode_grow g f di len = (len, di, f))"
proof -
  obtain l di' f' where r: "inode_grow g f di len = (l, di', f')"
    by (cases "inode_grow g f di len") auto
  have "same_header di di'" using r by (rule inode_grow_header)
  then have a: "length_d (fst (snd (inode_grow g f di len))) = length_d di"
    by (simp add: r same_header_def)
  have b: "inode_grow g f di len = (len, di, f)"
    if "bytes_to_sectors len = bytes_to_sectors (length_d di)"
    using that size_t_sub_self [OF bytes_to_sectors_less, of "length_d di"]
    by (simp add: inode_grow_def)
  from a b show ?thesis by simp
qed

theorem inode_grow_keeps_length_witness:
  "bytes_to_sectors 100001 = bytes_to_sectors (length_d (data ex_inode)) \<and>
   inode_grow ex_grow_stack ex_fs (data ex_inode) 100001 = (100001, data ex_inode, ex_fs)"
proof -
  have h: "bytes_to_sectors 100001 = bytes_to_sectors (length_d (data ex_inode))"
    by (simp add: ex_inode_def bytes_to_sectors_nonneg)
  with inode_grow_keeps_length [of ex_grow_stack ex_fs "data ex_inode" 100001]
  show ?thesis by simp
qed

subsection \<open>An exhausted free map\<close>

text \<open>
  C5 asks that growth aborts when the allocator cannot supply a sector, and that
  it never stores the invalid sector in the block map. The code does neither:
  with an exhausted free map, growing the empty record to one byte stores the
  invalid sector as the first direct pointer, counts it as an allocated block,
  writes zeros to it and returns the requested length, and \<^verbatim>\<open>inode_create\<close>
  reports success.
\<close>

theorem inode_grow_exhausted:
  "inode_grow g ex_fs new_disk_inode 1 =
     (1, new_disk_inode\<lparr>direct := (direct new_disk_inode)(0 := INVALID_SECTOR), blocks := 1\<rparr>,
      cache_write ex_fs INVALID_SECTOR zeros) \<and>
   inode_create g True ex_fs 7 1 False =
     Some (True, cache_write (cache_write ex_fs INVALID_SECTOR zeros) 7
       (inode_disk_sector
          (new_disk_inode\<lparr>direct := (direct new_disk_inode)(0 := INVALID_SECTOR), blocks := 1,
             length_d := 1\<rparr>)))"
proof -
  have n: "size_t_sub (bytes_to_sectors 1) (bytes_to_sectors (length_d new_disk_inode)) = 1"
    by (simp add: new_disk_inode_def bytes_to_sectors_nonneg size_t_sub_le)
  have al: "free_map_allocate ex_fs = (INVALID_SECTOR, ex_fs)"
    by (simp add: free_map_allocate_def ex_fs_def)
  have d: "grow_direct ex_fs new_disk_inode 1 =
     (cache_write ex_fs INVALID_SECTOR zeros,
      new_disk_inode\<lparr>direct := (direct new_disk_inode)(0 := INVALID_SECTOR), blocks := 1\<rparr>, 0, True)"
    by (subst grow_direct_step) (simp_all add: new_disk_inode_def al size_t_dec_pos Let_def)
  have a: "inode_grow g ex_fs new_disk_inode 1 =
     (1, new_disk_inode\<lparr>direct := (direct new_disk_inode)(0 := INVALID_SECTOR), blocks := 1\<rparr>,
      cache_write ex_fs INVALID_SECTOR zeros)"
    using d by (simp add: inode_grow_def n)
  have "inode_grow g ex_fs
     \<lparr>length_d = 0, magic = INODE_MAGIC, unused = (\<lambda>_. 0), direct = (\<lambda>_. 0), blocks = 0,
      is_dir = 0, padding = (\<lambda>_. 0)\<rparr> 1 =
     (1, new_disk_inode\<lparr>direct := (direct new_disk_inode)(0 := INVALID_SECTOR), blocks := 1\<rparr>,
      cache_write ex_fs INVALID_SECTOR zeros)"
    using a by (simp add: new_disk_inode_def)
  then have b: "inode_create g True ex_fs 7 1 False =
     Some (True, cache_write (cache_write ex_fs INVALID_SECTOR zeros) 7
       (inode_disk_sector
          (new_disk_inode\<lparr>direct := (direct new_disk_inode)(0 := INVALID_SECTOR), blocks := 1,
             length_d := 1\<rparr>)))"
    by (simp add: inode_create_def)
  from a b show ?thesis by simp
qed

subsection \<open>The deny-write gate\<close>

lemma repeat_deny:
  "0 \<le> deny_write_cnt ino \<Longrightarrow> deny_write_cnt ino + int n \<le> open_cnt ino \<Longrightarrow>
   repeat_op n inode_deny_write ino = Some (ino\<lparr>deny_write_cnt := deny_write_cnt ino + int n\<rparr>)"
proof (induction n arbitrary: ino)
  case 0
  then show ?case by simp
next
  case (Suc n)
  let ?i = "ino\<lparr>deny_write_cnt := deny_write_cnt ino + 1\<rparr>"
  have "inode_deny_write ino = Some ?i"
    using Suc.prems by (simp add: inode_deny_write_def Let_def)
  moreover have "repeat_op n inode_deny_write ?i =
      Some (?i\<lparr>deny_write_cnt := deny_write_cnt ?i + int n\<rparr>)"
    using Suc.prems by (intro Suc.IH) simp_all
  ultimately show ?case by (simp add: add.assoc add.commute)
qed

lemma repeat_allow:
  "0 \<le> c \<Longrightarrow> c + int n \<le> open_cnt ino \<Longrightarrow> deny_write_cnt ino = c + int n \<Longrightarrow>
   repeat_op n inode_allow_write ino = Some (ino\<lparr>deny_write_cnt := c\<rparr>)"
proof (induction n arbitrary: ino)
  case 0
  then show ?case by simp
next
  case (Suc n)
  let ?i = "ino\<lparr>deny_write_cnt := deny_write_cnt ino - 1\<rparr>"
  have "inode_allow_write ino = Some ?i"
    using Suc.prems by (simp add: inode_allow_write_def)
  moreover have "repeat_op n inode_allow_write ?i = Some (?i\<lparr>deny_write_cnt := c\<rparr>)"
    using Suc.prems by (intro Suc.IH) simp_all
  ultimately show ?case by simp
qed

text \<open>
  C8: while the deny-write counter is positive, \<^verbatim>\<open>inode_write_at\<close> returns 0 and
  leaves the inode (its length and data) and the storage as they are, for every
  buffer, size and offset. \<open>n\<close> calls of \<^verbatim>\<open>inode_deny_write\<close> on an inode with at
  least \<open>n\<close> openers close the gate, and the \<open>n\<close> matching calls of
  \<^verbatim>\<open>inode_allow_write\<close> give back the very inode there was before, so that a write
  on it is the write there would have been.
\<close>

theorem deny_write_gate:
  "(0 < deny_write_cnt ino \<longrightarrow> inode_write_at g mem f ino buffer sz offset = (0, ino, f)) \<and>
   (deny_write_cnt ino = 0 \<and> int n \<le> open_cnt ino \<longrightarrow>
      (\<exists>ino'. repeat_op n inode_deny_write ino = Some ino' \<and> deny_write_cnt ino' = int n \<and>
         (0 < n \<longrightarrow> inode_write_at g mem f ino' buffer sz offset = (0, ino', f)) \<and>
         repeat_op n inode_allow_write ino' = Some ino))"
proof -
  have gate: "inode_write_at g mem f i buffer sz offset = (0, i, f)" if "0 < deny_write_cnt i" for i
    using that by (simp add: inode_write_at_def)
  have "\<exists>ino'. repeat_op n inode_deny_write ino = Some ino' \<and> deny_write_cnt ino' = int n \<and>
         (0 < n \<longrightarrow> inode_write_at g mem f ino' buffer sz offset = (0, ino', f)) \<and>
         repeat_op n inode_allow_write ino' = Some ino"
    if z: "deny_write_cnt ino = 0" and le: "int n \<le> open_cnt ino"
  proof -
    let ?i = "ino\<lparr>deny_write_cnt := deny_write_cnt ino + int n\<rparr>"
    have 1: "repeat_op n inode_deny_write ino = Some ?i"
      using z le by (intro repeat_deny) simp_all
    have 2: "deny_write_cnt ?i = int n" using z by simp
    have 3: "0 < n \<Longrightarrow> inode_write_at g mem f ?i buffer sz offset = (0, ?i, f)"
      using z by (intro gate) simp
    have "repeat_op n inode_allow_write ?i = Some (?i\<lparr>deny_write_cnt := 0\<rparr>)"
      using z le by (intro repeat_allow) simp_all
    moreover have "?i\<lparr>deny_write_cnt := 0\<rparr> = ino" using z by simp
    ultimately have 4: "repeat_op n inode_allow_write ?i = Some ino" by simp
    from 1 2 3 4 show ?thesis by blast
  qed
  with gate show ?thesis by blast
qed

theorem deny_write_gate_witness:
  "0 < deny_write_cnt ex_inode_denied \<and>
   inode_write_at ex_grow_stack True ex_fs ex_inode_denied [1, 2] 2 0 = (0, ex_inode_denied, ex_fs) \<and>
   deny_write_cnt ex_inode = 0 \<and> int 1 \<le> open_cnt ex_inode \<and>
   (\<exists>ino'. repeat_op 1 inode_deny_write ex_inode = Some ino' \<and> deny_write_cnt ino' = int 1 \<and>
      inode_write_at ex_grow_stack True ex_fs ino' [1, 2] 2 0 = (0, ino', ex_fs) \<and>
      repeat_op 1 inode_allow_write ino' = Some ex_inode)"
proof -
  have a: "0 < deny_write_cnt ex_inode_denied" by (simp add: ex_inode_denied_def)
  have b: "deny_write_cnt ex_inode = 0 \<and> int 1 \<le> open_cnt ex_inode" by (simp add: ex_inode_def)
  show ?thesis
    using a b deny_write_gate [of ex_inode_denied ex_grow_stack True ex_fs "[1, 2]" 2 0 0]
      deny_write_gate [of ex_inode ex_grow_stack True ex_fs "[1, 2]" 2 0 1]
    by simp
qed

subsection \<open>The registry\<close>

lemma registry_find_None: "registry_find es s = None \<longleftrightarrow> s \<notin> (\<lambda>e. sector (snd e)) ` set es"
  by (induction es s rule: registry_find.induct) auto

lemma registry_find_Some:
  "distinct (map (\<lambda>e. sector (snd e)) es) \<Longrightarrow> (a, ino) \<in> set es \<Longrightarrow>
   registry_find es (sector ino) = Some a"
  by (induction es "sector ino" rule: registry_find.induct) (auto simp: image_iff)

lemma registry_find_mem:
  "registry_find es s = Some a \<Longrightarrow> \<exists>ino. map_of es a = Some ino"
  by (induction es s rule: registry_find.induct) (auto split: if_splits)

lemma map_fst_update_inode: "map fst (update_inode a upd es) = map fst es"
  by (induction es) (auto simp: update_inode_def)

lemma map_sector_update_inode:
  "(\<forall>i. sector (upd i) = sector i) \<Longrightarrow>
   map (\<lambda>e. sector (snd e)) (update_inode a upd es) = map (\<lambda>e. sector (snd e)) es"
  by (induction es) (auto simp: update_inode_def)

lemma map_of_update_inode:
  "map_of (update_inode a upd es) b = (if b = a then map_option upd (map_of es a) else map_of es b)"
  by (induction es) (auto simp: update_inode_def)

lemma list_remove_update_inode: "list_remove a (update_inode a upd es) = list_remove a es"
  by (induction es) (auto simp: update_inode_def list_remove_def)

lemma registry_ok_update:
  "registry_ok k \<Longrightarrow> (\<forall>i. sector (upd i) = sector i) \<Longrightarrow>
   registry_ok \<lparr>files = f', open_inodes = update_inode a upd (open_inodes k)\<rparr>"
  by (simp add: registry_ok_def map_fst_update_inode map_sector_update_inode)

lemma registry_ok_remove:
  "registry_ok k \<Longrightarrow> registry_ok \<lparr>files = f', open_inodes = list_remove a (open_inodes k)\<rparr>"
  by (simp add: registry_ok_def list_remove_def distinct_map_filter)

lemma kernel_update_eq:
  "k\<lparr>open_inodes := es\<rparr> = \<lparr>files = files k, open_inodes = es\<rparr>"
  by simp

lemma inode_reopen_ok:
  "registry_ok k \<Longrightarrow> inode_reopen k h = Some (h', k') \<Longrightarrow> registry_ok k'"
  unfolding inode_reopen_def
  by (auto simp: kernel_update_eq split: option.splits intro!: registry_ok_update)

lemma inode_open_ok:
  assumes "registry_ok k" "\<forall>a. m = Some a \<longrightarrow> a \<notin> fst ` set (open_inodes k)"
    and "inode_open k s m = Some (h, k')"
  shows "registry_ok k'"
proof (cases "registry_find (open_inodes k) s")
  case (Some a)
  with assms(3) have "inode_reopen k (Some a) = Some (h, k')" by (simp add: inode_open_def)
  with assms(1) show ?thesis by (rule inode_reopen_ok)
next
  case None
  then have fresh: "s \<notin> (\<lambda>e. sector (snd e)) ` set (open_inodes k)"
    by (simp add: registry_find_None)
  show ?thesis
  proof (cases m)
    case None
    with assms \<open>registry_find (open_inodes k) s = None\<close> show ?thesis
      by (simp add: inode_open_def)
  next
    case (Some a)
    with assms \<open>registry_find (open_inodes k) s = None\<close> fresh show ?thesis
      by (auto simp: inode_open_def registry_ok_def)
  qed
qed

lemma inode_close_ok:
  "registry_ok k \<Longrightarrow> inode_close k h = Some k' \<Longrightarrow> registry_ok k'"
  unfolding inode_close_def
  by (auto simp: kernel_update_eq Let_def list_remove_update_inode
      split: option.splits if_splits intro!: registry_ok_update registry_ok_remove)

lemma inode_remove_ok:
  "registry_ok k \<Longrightarrow> inode_remove k h = Some k' \<Longrightarrow> registry_ok k'"
  unfolding inode_remove_def
  by (auto simp: kernel_update_eq split: option.splits intro!: registry_ok_update)

lemma reachable_registry_ok: "reachable k \<Longrightarrow> registry_ok k"
proof (induction rule: reachable.induct)
  case (r_init k)
  show ?case by (simp add: registry_ok_def inode_init_def)
next
  case (r_open k m s h k')
  then show ?case by (blast intro: inode_open_ok)
next
  case (r_reopen k h h' k')
  then show ?case by (blast intro: inode_reopen_ok)
next
  case (r_close k h k')
  then show ?case by (blast intro: inode_close_ok)
next
  case (r_remove k h k')
  then show ?case by (blast intro: inode_remove_ok)
next
  case (r_update k upd f' a)
  then show ?case by (blast intro: registry_ok_update)
qed

lemma map_of_registry:
  "distinct (map fst es) \<Longrightarrow> (a, ino) \<in> set es \<Longrightarrow> map_of es a = Some ino"
  by simp

text \<open>
  C6: when the registry holds a handle for sector \<open>s\<close>, \<^verbatim>\<open>inode_open\<close> returns that
  handle; its reference count is one more than before, the registry holds the
  same addresses as before (\<^verbatim>\<open>malloc\<close> is not called) and nothing else changes.
  In every kernel that the operations reach from an empty registry, each
  address and each sector is in the registry at most once.
\<close>

theorem inode_open_existing:
  "(registry_ok k \<and> (a, ino) \<in> set (open_inodes k) \<and> sector ino = s \<longrightarrow>
      (\<exists>k'. inode_open k s m = Some (Some a, k') \<and> files k' = files k \<and>
         map fst (open_inodes k') = map fst (open_inodes k) \<and>
         map_of (open_inodes k') a = Some (ino\<lparr>open_cnt := open_cnt ino + 1\<rparr>) \<and>
         (\<forall>b. b \<noteq> a \<longrightarrow> map_of (open_inodes k') b = map_of (open_inodes k) b) \<and>
         registry_ok k')) \<and>
   (reachable k \<longrightarrow> registry_ok k)"
proof -
  have "\<exists>k'. inode_open k s m = Some (Some a, k') \<and> files k' = files k \<and>
         map fst (open_inodes k') = map fst (open_inodes k) \<and>
         map_of (open_inodes k') a = Some (ino\<lparr>open_cnt := open_cnt ino + 1\<rparr>) \<and>
         (\<forall>b. b \<noteq> a \<longrightarrow> map_of (open_inodes k') b = map_of (open_inodes k) b) \<and>
         registry_ok k'"
    if ok: "registry_ok k" and mem: "(a, ino) \<in> set (open_inodes k)" and s: "sector ino = s"
  proof -
    let ?k = "k\<lparr>open_inodes := update_inode a (\<lambda>i. i\<lparr>open_cnt := open_cnt i + 1\<rparr>) (open_inodes k)\<rparr>"
    have f: "registry_find (open_inodes k) s = Some a"
      using ok mem s by (auto simp: registry_ok_def dest: registry_find_Some)
    have m: "map_of (open_inodes k) a = Some ino"
      using ok mem by (simp add: registry_ok_def)
    have o: "inode_open k s m = Some (Some a, ?k)"
      by (simp add: inode_open_def f inode_reopen_def m)
    have "registry_ok ?k"
      using ok by (simp add: kernel_update_eq registry_ok_update)
    with o m show ?thesis
      by (simp add: map_fst_update_inode map_of_update_inode)
  qed
  then show ?thesis by (blast intro: reachable_registry_ok)
qed

theorem inode_open_existing_witness:
  "registry_ok ex_kernel1 \<and> (0, ex_inode) \<in> set (open_inodes ex_kernel1) \<and> sector ex_inode = 1 \<and>
   (\<exists>k'. inode_open ex_kernel1 1 None = Some (Some 0, k') \<and> files k' = files ex_kernel1 \<and>
      map fst (open_inodes k') = map fst (open_inodes ex_kernel1) \<and>
      map_of (open_inodes k') 0 = Some (ex_inode\<lparr>open_cnt := open_cnt ex_inode + 1\<rparr>) \<and>
      registry_ok k') \<and>
   reachable (inode_init ex_kernel) \<and> registry_ok (inode_init ex_kernel)"
proof -
  have a: "registry_ok ex_kernel1 \<and> (0, ex_inode) \<in> set (open_inodes ex_kernel1) \<and>
      sector ex_inode = 1"
    by (simp add: registry_ok_def ex_kernel1_def ex_inode_def)
  have b: "reachable (inode_init ex_kernel)" by (rule r_init)
  show ?thesis
    using a b inode_open_existing [of ex_kernel1 0 ex_inode 1 None]
      inode_open_existing [of "inode_init ex_kernel" 0 ex_inode 1 None]
    by blast
qed

lemma inode_free_data: "data i = data ino \<Longrightarrow> inode_free f i = inode_free f ino"
  by (simp add: inode_free_def)

declare free_direct.simps [simp del] free_entries.simps [simp del] free_doubly.simps [simp del]

subsection \<open>The release engine\<close>

lemma free_entries_closed:
  "i \<le> t \<Longrightarrow> t - i \<le> s \<Longrightarrow> s < 2 ^ 32 \<Longrightarrow>
   free_entries f b i t s = (f\<lparr>free_map := free_map f @ map b [i..<t]\<rparr>, s - (t - i))"
proof (induction "t - i" arbitrary: f i s)
  case 0
  then show ?case by (simp add: free_entries.simps)
next
  case (Suc k)
  then have lt: "i < t" and s: "0 < s" by simp_all
  have d: "size_t_dec s = s - 1" using s Suc.prems by (simp add: size_t_dec_pos)
  have "free_entries f b i t s =
      free_entries (free_map_release f (b i)) b (i + 1) t (s - 1)"
    using lt d by (subst free_entries.simps) simp
  also have "\<dots> = ((free_map_release f (b i))\<lparr>free_map :=
      free_map (free_map_release f (b i)) @ map b [i + 1..<t]\<rparr>, s - 1 - (t - (i + 1)))"
    using Suc.hyps(2) Suc.prems lt by (intro Suc.hyps(1)) simp_all
  also have "\<dots> = (f\<lparr>free_map := free_map f @ map b [i..<t]\<rparr>, s - (t - i))"
    using lt by (simp add: free_map_release_def upt_conv_Cons)
  finally show ?case .
qed

lemma free_direct_closed:
  "i < 12 \<Longrightarrow> 0 < s \<Longrightarrow> s < 2 ^ 32 \<Longrightarrow>
   free_direct f di s i =
     (f\<lparr>free_map := free_map f @ map (direct di) [i..<i + min s (12 - i)]\<rparr>,
      s - min s (12 - i), i + min s (12 - i), s \<le> 12 - i)"
proof (induction "12 - i" arbitrary: f i s)
  case 0
  then show ?case by simp
next
  case (Suc k)
  have d: "size_t_dec s = s - 1" using Suc.prems by (simp add: size_t_dec_pos)
  show ?case
  proof (cases "s = 1")
    case True
    then show ?thesis
      using Suc.prems d
      by (subst free_direct.simps) (simp add: free_map_release_def Let_def)
  next
    case False
    then have s1: "0 < s - 1" using Suc.prems by simp
    show ?thesis
    proof (cases "i = 11")
      case True
      then show ?thesis
        using Suc.prems d False
        by (subst free_direct.simps, subst free_direct.simps)
           (simp add: free_map_release_def Let_def)
    next
      case i: False
      then have i1: "i + 1 < 12" using Suc.prems by simp
      have "free_direct f di s i = free_direct (free_map_release f (direct di i)) di (s - 1) (i + 1)"
        using Suc.prems d False by (subst free_direct.simps) (simp add: Let_def)
      also have "\<dots> = ((free_map_release f (direct di i))\<lparr>free_map :=
            free_map (free_map_release f (direct di i)) @
            map (direct di) [i + 1..<i + 1 + min (s - 1) (12 - (i + 1))]\<rparr>,
          s - 1 - min (s - 1) (12 - (i + 1)), i + 1 + min (s - 1) (12 - (i + 1)),
          s - 1 \<le> 12 - (i + 1))"
        using Suc.hyps(2) Suc.prems i1 s1 by (intro Suc.hyps(1)) simp_all
      also have "\<dots> = (f\<lparr>free_map := free_map f @ map (direct di) [i..<i + min s (12 - i)]\<rparr>,
          s - min s (12 - i), i + min s (12 - i), s \<le> 12 - i)"
      proof -
        have m: "i + 1 + min (s - 1) (12 - (i + 1)) = i + min s (12 - i)"
          using Suc.prems False i1 unfolding min_def by auto
        have u: "[i..<i + min s (12 - i)] = i # [i + 1..<i + min s (12 - i)]"
          using Suc.prems by (simp add: upt_conv_Cons min_def)
        have a: "s - 1 - min (s - 1) (12 - (i + 1)) = s - min s (12 - i)"
          using Suc.prems by (simp add: min_def) arith
        have b: "(s - 1 \<le> 12 - (i + 1)) = (s \<le> 12 - i)"
          using Suc.prems by arith
        show ?thesis
          by (simp only: m u a b) (simp add: free_map_release_def)
      qed
      finally show ?thesis .
    qed
  qed
qed

lemma slot_releases_free_map [simp]:
  "slot_releases (f\<lparr>free_map := x\<rparr>) b1 c = slot_releases f b1 c"
  by (simp add: slot_releases_def fun_eq_iff)

lemma free_doubly_closed:
  "i \<le> db \<Longrightarrow> db \<le> 128 \<Longrightarrow> c < 2 ^ 32 \<Longrightarrow>
   free_doubly f b1 i db (c - 128 * i) =
     Some (f\<lparr>free_map := free_map f @ concat (map (slot_releases f b1 c) [i..<db])\<rparr>)"
proof (induction "db - i" arbitrary: f i)
  case 0
  then show ?case by (simp add: free_doubly.simps)
next
  case (Suc k)
  then have lt: "i < db" "i < 128" by simp_all
  let ?s = "c - 128 * i"
  let ?t = "min ?s 128"
  let ?b2 = "sector_words (disk f (b1 i))"
  let ?f1 = "f\<lparr>free_map := free_map f @ map ?b2 [0..<?t]\<rparr>"
  have e: "free_entries f ?b2 0 ?t ?s = (?f1, ?s - (?t - 0))"
    using Suc.prems by (intro free_entries_closed) simp_all
  have r: "?s - ?t = c - 128 * (i + 1)" by (simp add: min_def add.commute)
  have tf: "(if ?s < 128 then ?s else 128) = ?t" by (simp add: min_def)
  have "free_doubly f b1 i db ?s = free_doubly (free_map_release ?f1 (b1 i)) b1 (i + 1) db (c - 128 * (i + 1))"
    using lt e r
    by (subst free_doubly.simps) (simp add: Let_def cache_read_def tf del: mult_Suc_right)
  also have "\<dots> = Some ((free_map_release ?f1 (b1 i))\<lparr>free_map :=
       free_map (free_map_release ?f1 (b1 i)) @
       concat (map (slot_releases (free_map_release ?f1 (b1 i)) b1 c) [i + 1..<db])\<rparr>)"
    using Suc.hyps(2) Suc.prems lt by (intro Suc.hyps(1)) simp_all
  also have "\<dots> = Some (f\<lparr>free_map := free_map f @ concat (map (slot_releases f b1 c) [i..<db])\<rparr>)"
    using lt by (simp add: free_map_release_def upt_conv_Cons slot_releases_def)
  finally show ?case .
qed


lemma DIV_ROUND_UP_size_t_small:
  "s \<le> 16384 \<Longrightarrow> DIV_ROUND_UP_size_t s 128 = (s + 127) div 128"
  by (simp add: DIV_ROUND_UP_size_t_def)

lemma cache_read_free_map [simp]: "cache_read (f\<lparr>free_map := x\<rparr>) s = cache_read f s"
  by (simp add: cache_read_def)

lemma cache_read_release [simp]: "cache_read (free_map_release f s') s = cache_read f s"
  by (simp add: cache_read_def free_map_release_def)

lemma ind_buf_fold: "sector_words (cache_read f (direct di 12)) = ind_buf f di"
  by (simp add: cache_read_def ind_buf_def)

lemma top_buf_fold: "sector_words (cache_read f (direct di 13)) = top_buf f di"
  by (simp add: cache_read_def top_buf_def)

lemma ind_buf_free_map [simp]: "ind_buf (f\<lparr>free_map := x\<rparr>) di = ind_buf f di"
  by (simp add: ind_buf_def)

lemma top_buf_free_map [simp]: "top_buf (f\<lparr>free_map := x\<rparr>) di = top_buf f di"
  by (simp add: top_buf_def)

lemma slot_buf_free_map [simp]: "slot_buf (f\<lparr>free_map := x\<rparr>) di = slot_buf f di"
  by (simp add: slot_buf_def fun_eq_iff)

lemma inode_free_closed:
  assumes n: "bytes_to_sectors (length_d (data ino)) = n" and le: "n \<le> 16524"
  shows "inode_free f ino = Some (f\<lparr>free_map := free_map f @ release_order f (data ino) n\<rparr>)"
proof -
  let ?di = "data ino"
  show ?thesis
  proof (cases "n = 0")
    case True
    then show ?thesis using n by (simp add: inode_free_def release_order_def)
  next
    case False
    then have pos: "0 < n" by simp
    have d: "free_direct f ?di n 0 =
        (f\<lparr>free_map := free_map f @ map (direct ?di) [0..<min n 12]\<rparr>, n - min n 12, min n 12,
         n \<le> 12)"
      using free_direct_closed [of 0 n f ?di] pos le by simp
    show ?thesis
    proof (cases "n \<le> 12")
      case True
      then show ?thesis
        using n False d by (simp add: inode_free_def release_order_def Let_def)
    next
      case gt12: False
      let ?f1 = "f\<lparr>free_map := free_map f @ map (direct ?di) [0..<12]\<rparr>"
      have d': "free_direct f ?di n 0 = (?f1, n - 12, 12, False)"
        using d gt12 by (simp add: min_def)
      show ?thesis
      proof (cases "n \<le> 140")
        case True
        let ?f2 = "?f1\<lparr>free_map := free_map ?f1 @ map (ind_buf f ?di) [0..<n - 12]\<rparr>"
        have "free_entries ?f1 (ind_buf f ?di) 0 (n - 12) (n - 12) = (?f2, n - 12 - (n - 12 - 0))"
          using le by (intro free_entries_closed) simp_all
        then have e: "free_entries ?f1 (ind_buf f ?di) 0 (n - 12) (n - 12) = (?f2, 0)" by simp
        have tf: "(if n - 12 < 128 then n - 12 else 128) = n - 12" using True by auto
        have "inode_free f ino = Some (free_map_release ?f2 (direct ?di 12))"
          unfolding inode_free_def Let_def n
          using False by (simp only: d' ind_buf_fold ind_buf_free_map tf e split if_False if_True refl)
        also have "\<dots> = Some (f\<lparr>free_map := free_map f @ release_order f ?di n\<rparr>)"
          using gt12 True by (simp add: release_order_def free_map_release_def min_def)
        finally show ?thesis .
      next
        case gt140: False
        let ?f2 = "?f1\<lparr>free_map := free_map ?f1 @ map (ind_buf f ?di) [0..<128]\<rparr>"
        let ?f3 = "free_map_release ?f2 (direct ?di 12)"
        have "free_entries ?f1 (ind_buf f ?di) 0 128 (n - 12) = (?f2, n - 12 - (128 - 0))"
          using le gt140 by (intro free_entries_closed) simp_all
        then have e: "free_entries ?f1 (ind_buf f ?di) 0 128 (n - 12) = (?f2, n - 140)" by simp
        have tf: "(if n - 12 < 128 then n - 12 else 128) = 128" using gt140 by simp
        let ?db = "slots_used n"
        have db: "DIV_ROUND_UP_size_t (n - 140) 128 = ?db"
          using le by (simp add: DIV_ROUND_UP_size_t_small slots_used_def)
        have dble: "?db \<le> 128" using le by (simp add: slots_used_def)
        let ?f4 = "?f3\<lparr>free_map := free_map ?f3 @
              concat (map (slot_releases ?f3 (top_buf f ?di) (n - 140)) [0..<?db])\<rparr>"
        have "free_doubly ?f3 (top_buf f ?di) 0 ?db (n - 140 - 128 * 0) = Some ?f4"
          using dble le by (intro free_doubly_closed) simp_all
        then have fd: "free_doubly ?f3 (top_buf f ?di) 0 ?db (n - 140) = Some ?f4"
          by simp
        have sr: "slot_releases ?f3 (top_buf f ?di) (n - 140) =
            (\<lambda>outer. map (slot_buf f ?di outer) [0..<min (n - 140 - 128 * outer) 128] @
                      [top_buf f ?di outer])"
          by (simp add: slot_releases_def slot_buf_def fun_eq_iff free_map_release_def)
        have nz: "(n - 140 = 0) = False" "(12 + 1 :: nat) = 13" using gt140 by simp_all
        have tb: "sector_words (cache_read ?f3 (direct ?di 13)) = top_buf f ?di"
          by (simp add: top_buf_fold)
        have "inode_free f ino = Some (free_map_release ?f4 (direct ?di 13))"
          unfolding inode_free_def Let_def n
          using False
          by (simp only: d' ind_buf_fold ind_buf_free_map tf e split if_False if_True refl nz tb db fd option.case)
        also have "\<dots> = Some (f\<lparr>free_map := free_map f @ release_order f ?di n\<rparr>)"
          using gt12 gt140
          by (simp only: sr) (simp add: release_order_def free_map_release_def min_def)
        finally show ?thesis .
      qed
    qed
  qed
qed


subsection \<open>The block map as lists\<close>


lemma div128_up:
  fixes r q :: nat
  assumes r: "r < 128"
  shows "(128 * q + r + 127) div 128 = q + (if r = 0 then 0 else 1)"
proof -
  have "(r + 127) div 128 = (if r = 0 then 0 else (1::nat))"
    using r by (auto intro: div_nat_eqI)
  moreover have "(128 * q + (r + 127)) div 128 = q + (r + 127) div 128"
    by simp
  ultimately show ?thesis by (simp add: add.assoc)
qed

lemma ceil128:
  fixes c :: nat
  shows "(c + 127) div 128 = c div 128 + (if c mod 128 = 0 then 0 else 1)"
proof -
  have e: "128 * (c div 128) + c mod 128 = c" by simp
  have "(128 * (c div 128) + c mod 128 + 127) div 128 =
      c div 128 + (if c mod 128 = 0 then 0 else 1)"
    by (rule div128_up) simp
  then show ?thesis unfolding e .
qed

lemma ceil128_exact: "c mod 128 = 0 \<Longrightarrow> (c + 127) div 128 = c div (128::nat)"
  by (simp add: ceil128)

lemma ceil128_up: "c mod 128 \<noteq> 0 \<Longrightarrow> (c + 127) div 128 = Suc (c div (128::nat))"
  by (simp add: ceil128)

lemma map_upt_shift: "map h [m..<m + k] = map (\<lambda>i. h (m + i)) [0..<k]"
proof -
  have "[m..<m + k] = map (\<lambda>i. i + m) [0..<k]"
    by (simp add: map_add_upt add.commute)
  then show ?thesis by (simp add: comp_def add.commute)
qed

lemma slots_full:
  "map (\<lambda>k. h (k div 128) (k mod 128)) [0..<128 * q] =
   concat (map (\<lambda>outer. map (h outer) [0..<128]) [0..<q])"
proof (induction q)
  case 0
  show ?case by simp
next
  case (Suc q)
  have "[0..<128 * q + 128] = [0..<128 * q] @ [128 * q..<128 * q + 128]"
    by (rule upt_add_eq_append) simp
  moreover have "128 * Suc q = 128 * q + 128" by simp
  ultimately have "[0..<128 * Suc q] = [0..<128 * q] @ [128 * q..<128 * q + 128]"
    by (simp only:)
  moreover have "map (\<lambda>k. h (k div 128) (k mod 128)) [128 * q..<128 * q + 128] =
      map (h q) [0..<128]"
    by (subst map_upt_shift) simp
  ultimately show ?case using Suc.IH by simp
qed

lemma slots_split:
  "map (\<lambda>k. h (k div 128) (k mod 128)) [0..<c] =
   concat (map (\<lambda>outer. map (h outer) [0..<min (c - 128 * outer) 128]) [0..<(c + 127) div 128])"
proof -
  let ?q = "c div 128" and ?r = "c mod 128"
  have c: "c = 128 * ?q + ?r" by simp
  have upt: "[0..<c] = [0..<128 * ?q] @ [128 * ?q..<128 * ?q + ?r]"
    by (subst c, subst upt_add_eq_append) simp_all
  have last: "map (\<lambda>k. h (k div 128) (k mod 128)) [128 * ?q..<128 * ?q + ?r] = map (h ?q) [0..<?r]"
    by (subst map_upt_shift) simp
  have full: "map (\<lambda>outer. map (h outer) [0..<min (c - 128 * outer) 128]) [0..<?q] =
      map (\<lambda>outer. map (h outer) [0..<128]) [0..<?q]"
  proof (rule map_cong [OF refl])
    fix x assume "x \<in> set [0..<?q]"
    then have "x < ?q" by simp
    then have "128 * x + 128 \<le> c" by (simp add: less_eq_div_iff_mult_less_eq) 
    then have "min (c - 128 * x) 128 = 128" by simp
    then show "map (h x) [0..<min (c - 128 * x) 128] = map (h x) [0..<128]" by simp
  qed
  have lhs: "map (\<lambda>k. h (k div 128) (k mod 128)) [0..<c] =
      concat (map (\<lambda>outer. map (h outer) [0..<128]) [0..<?q]) @ map (h ?q) [0..<?r]"
    by (subst upt) (simp only: map_append slots_full last)
  let ?F = "\<lambda>outer. map (h outer) [0..<min (c - 128 * outer) 128]"
  have rhs_q: "concat (map ?F [0..<?q]) = concat (map (\<lambda>outer. map (h outer) [0..<128]) [0..<?q])"
    by (simp only: full)
  show ?thesis
  proof (cases "?r = 0")
    case True
    then have qeq: "(c + 127) div 128 = ?q" by (simp add: ceil128)
    have "map (h ?q) [0..<?r] = []" using True by simp
    then show ?thesis by (simp only: lhs qeq rhs_q append_Nil2)
  next
    case False
    then have q1: "(c + 127) div 128 = Suc ?q" by (simp add: ceil128)
    have m: "min (c - 128 * ?q) 128 = ?r"
      by (simp add: minus_mult_div_eq_mod)
    have "concat (map ?F [0..<Suc ?q]) = concat (map ?F [0..<?q]) @ ?F ?q"
      by (simp only: upt_Suc_append [OF le0] map_append concat_append list.map concat.simps
          append_Nil2)
    also have "\<dots> = concat (map (\<lambda>outer. map (h outer) [0..<128]) [0..<?q]) @ map (h ?q) [0..<?r]"
      by (simp only: rhs_q m)
    finally show ?thesis by (simp only: lhs q1)
  qed
qed




lemma mset_concat_snoc:
  "mset (concat (map (\<lambda>i. xs i @ [t i]) [0..<q])) =
   mset (concat (map xs [0..<q])) + mset (map t [0..<q])"
  by (induction q) simp_all

lemma data_sectors_direct:
  "n \<le> 12 \<Longrightarrow> data_sectors f di n = map (direct di) [0..<n]"
  unfolding data_sectors_def by (rule map_cong) (simp_all add: data_sector_def)

lemma data_sectors_indirect:
  assumes "12 \<le> n" "n \<le> 140"
  shows "data_sectors f di n = map (direct di) [0..<12] @ map (ind_buf f di) [0..<n - 12]"
proof -
  have "[0..<12 + (n - 12)] = [0..<12] @ [12..<12 + (n - 12)]"
    by (rule upt_add_eq_append) simp
  then have u: "[0..<n] = [0..<12] @ [12..<12 + (n - 12)]" using assms by simp
  have a: "map (data_sector f di) [0..<12] = map (direct di) [0..<12]"
    by (rule map_cong) (simp_all add: data_sector_def)
  have "map (data_sector f di) [12..<12 + (n - 12)] =
      map (\<lambda>i. data_sector f di (12 + i)) [0..<n - 12]"
    by (rule map_upt_shift)
  also have "\<dots> = map (ind_buf f di) [0..<n - 12]"
    using assms by (intro map_cong) (auto simp: data_sector_def)
  finally show ?thesis
    unfolding data_sectors_def by (simp only: u map_append a)
qed

lemma data_sectors_doubly:
  assumes "140 \<le> n"
  shows "data_sectors f di n =
    map (direct di) [0..<12] @ map (ind_buf f di) [0..<128] @
    map (\<lambda>k. slot_buf f di (k div 128) (k mod 128)) [0..<n - 140]"
proof -
  have "[0..<140 + (n - 140)] = [0..<140] @ [140..<140 + (n - 140)]"
    by (rule upt_add_eq_append) simp
  then have u: "[0..<n] = [0..<140] @ [140..<140 + (n - 140)]" using assms by simp
  have a: "map (data_sector f di) [0..<140] =
      map (direct di) [0..<12] @ map (ind_buf f di) [0..<128]"
    using data_sectors_indirect [of 140 f di] by (simp add: data_sectors_def)
  have "map (data_sector f di) [140..<140 + (n - 140)] =
      map (\<lambda>i. data_sector f di (140 + i)) [0..<n - 140]"
    by (rule map_upt_shift)
  also have "\<dots> = map (\<lambda>k. slot_buf f di (k div 128) (k mod 128)) [0..<n - 140]"
    by (intro map_cong) (simp_all add: data_sector_def)
  finally show ?thesis
    unfolding data_sectors_def by (simp only: u map_append a append_assoc)
qed

lemma slots_used_le: "n \<le> 16524 \<Longrightarrow> slots_used n \<le> 128"
  by (simp add: slots_used_def)

lemma release_order_mset:
  "mset (release_order f di n) = mset (data_sectors f di n) + mset (index_sectors f di n)"
proof -
  consider "n \<le> 12" | "12 < n" "n \<le> 140" | "140 < n" by linarith
  then show ?thesis
  proof cases
    case 1
    then show ?thesis
      by (simp add: data_sectors_direct release_order_def index_sectors_def min_def)
  next
    case 2
    then have "min (n - 12) 128 = n - 12" "min n 12 = 12" by simp_all
    with 2 show ?thesis
      by (simp add: data_sectors_indirect release_order_def index_sectors_def)
  next
    case 3
    then have m: "min (n - 12) 128 = 128" "min n 12 = 12" by simp_all
    have s: "map (\<lambda>k. slot_buf f di (k div 128) (k mod 128)) [0..<n - 140] =
        concat (map (\<lambda>outer. map (slot_buf f di outer) [0..<min (n - 140 - 128 * outer) 128])
          [0..<slots_used n])"
      unfolding slots_used_def by (rule slots_split)
    have d: "data_sectors f di n = map (direct di) [0..<12] @ map (ind_buf f di) [0..<128] @
        concat (map (\<lambda>outer. map (slot_buf f di outer) [0..<min (n - 140 - 128 * outer) 128])
          [0..<slots_used n])"
      using 3 by (simp only: data_sectors_doubly [of n f di] s)
    have c: "mset (concat (map (\<lambda>outer.
          map (slot_buf f di outer) [0..<min (n - 140 - 128 * outer) 128] @ [top_buf f di outer])
          [0..<slots_used n])) =
        mset (concat (map (\<lambda>outer. map (slot_buf f di outer)
          [0..<min (n - 140 - 128 * outer) 128]) [0..<slots_used n])) +
        mset (map (top_buf f di) [0..<slots_used n])"
      by (rule mset_concat_snoc)
    show ?thesis
      using 3 c by (simp add: d release_order_def index_sectors_def m del: mset_map mset_concat)
  qed
qed



lemma block_in_file:
  fixes L :: int
  assumes "int i < (L + 511) div 512"
  shows "512 * int i < L"
proof -
  have "int i + 1 \<le> (L + 511) div 512" using assms by simp
  then have "512 * (int i + 1) \<le> 512 * ((L + 511) div 512)" by simp
  also have "\<dots> \<le> L + 511"
    using mult_div_mod_eq [of 512 "L + 511"] pos_mod_sign [of 512 "L + 511"] by linarith
  finally show ?thesis by simp
qed

lemma block_index:
  fixes i :: nat
  shows "int (512 * i) div 512 = int i"
  by simp


lemma byte_to_sector_data:
  assumes "0 \<le> pos" "pos < length_d (data ino)" "nat (pos div 512) < 16524"
  shows "byte_to_sector f ino pos = data_sector f (data ino) (nat (pos div 512))"
proof -
  have "size_t (pos sdiv 512) = nat (pos div 512)"
    using assms by (intro size_t_sdiv_pos) simp_all
  then show ?thesis
    using assms
    by (simp add: byte_to_sector_def data_sector_def Let_def ind_buf_def top_buf_def
        slot_buf_def cache_read_def)
qed

lemma byte_to_sector_block:
  assumes "0 \<le> length_d (data ino)" "length_d (data ino) < 2 ^ 31"
    and "i < bytes_to_sectors (length_d (data ino))" "bytes_to_sectors (length_d (data ino)) \<le> 16524"
  shows "byte_to_sector f ino (int (512 * i)) = data_sector f (data ino) i"
proof -
  have "int i < (length_d (data ino) + 511) div 512"
    using assms by (simp add: bytes_to_sectors_nonneg)
  then have "512 * int i < length_d (data ino)" by (rule block_in_file)
  then have "int (512 * i) < length_d (data ino)" by simp
  moreover have "nat (int (512 * i) div 512) = i" by simp
  ultimately show ?thesis
    using byte_to_sector_data [of "int (512 * i)" ino f] assms by simp
qed

subsection \<open>The allocation loops in closed form\<close>

lemma free_map_allocate_Cons:
  "free_map f = a # rest \<Longrightarrow> free_map_allocate f = (a, f\<lparr>free_map := rest\<rparr>)"
  by (simp add: free_map_allocate_def)

lemma zero_fill_Nil: "free_map f = rest \<Longrightarrow> zero_fill [] rest f = f"
  by (simp add: zero_fill_def)

lemma zero_fill_Cons:
  "zero_fill as rest (cache_write (f\<lparr>free_map := as @ rest\<rparr>) a zeros) = zero_fill (a # as) rest f"
  by (auto simp: zero_fill_def cache_write_def fun_eq_iff)

lemma place_Nil: "place arr p [] = arr"
  by (auto simp: place_def fun_eq_iff)

lemma place_Cons: "place (arr(p := a)) (Suc p) as = place arr p (a # as)"
  by (auto simp: place_def fun_eq_iff nth_Cons') 

lemma place_single: "place arr p [a] = arr(p := a)"
  by (auto simp: place_def fun_eq_iff)

lemma zero_fill_single: "zero_fill [a] rest f = cache_write (f\<lparr>free_map := rest\<rparr>) a zeros"
  by (auto simp: zero_fill_def cache_write_def fun_eq_iff)

lemma grow_doubly_inner_closed:
  "free_map f = as @ rest \<Longrightarrow> 0 < n \<Longrightarrow> n < 2 ^ 32 \<Longrightarrow> length as = min n (128 - i) \<Longrightarrow>
   grow_doubly_inner f di b i n =
     (zero_fill as rest f, di\<lparr>blocks := blocks di + length as\<rparr>, place b i as,
      i + length as, n - length as)"
proof (induction as arbitrary: f di b i n)
  case Nil
  then have "\<not> i < 128" by (simp add: min_def split: if_splits)
  then show ?case using Nil by (simp add: grow_doubly_inner_stop zero_fill_Nil place_Nil)
next
  case (Cons a as)
  then have i: "i < 128" by (simp add: min_def split: if_splits)
  have al: "free_map_allocate f = (a, f\<lparr>free_map := as @ rest\<rparr>)"
    using Cons.prems by (simp add: free_map_allocate_Cons)
  have d: "size_t_dec n = n - 1" using Cons.prems by (simp add: size_t_dec_pos)
  let ?f2 = "cache_write (f\<lparr>free_map := as @ rest\<rparr>) a zeros"
  let ?di2 = "di\<lparr>blocks := blocks di + 1\<rparr>"
  have "Suc (length as) = min n (128 - i)" using Cons.prems by simp
  then have len: "length as = min (n - 1) (128 - (i + 1))"
    using i Cons.prems(2) unfolding min_def by (auto split: if_splits)
  show ?case
  proof (cases "n = 1")
    case True
    then have "as = []" using len by simp
    have "grow_doubly_inner f di b i n =
        (cache_write (f\<lparr>free_map := rest\<rparr>) a zeros, ?di2, b(i := a), i + 1, 0)"
      using True i al d \<open>as = []\<close> by (simp add: grow_doubly_inner_step Let_def)
    also have "\<dots> = (zero_fill [a] rest f, di\<lparr>blocks := blocks di + length [a]\<rparr>,
        place b i [a], i + length [a], n - length [a])"
      using True by (simp only: zero_fill_single place_single) simp
    finally show ?thesis using \<open>as = []\<close> by simp
  next
    case False
    then have n1: "0 < n - 1" "n - 1 < 2 ^ 32" using Cons.prems by simp_all
    have fm: "free_map ?f2 = as @ rest" by (simp add: cache_write_def)
    have "grow_doubly_inner f di b i n = grow_doubly_inner ?f2 ?di2 (b(i := a)) (i + 1) (n - 1)"
      using False i al d Cons.prems by (simp add: grow_doubly_inner_step Let_def)
    also have "\<dots> = (zero_fill as rest ?f2, ?di2\<lparr>blocks := blocks ?di2 + length as\<rparr>,
        place (b(i := a)) (i + 1) as, i + 1 + length as, n - 1 - length as)"
      using fm n1 len by (rule Cons.IH)
    also have "\<dots> = (zero_fill (a # as) rest f, di\<lparr>blocks := blocks di + length (a # as)\<rparr>,
        place b i (a # as), i + length (a # as), n - length (a # as))"
      using place_Cons [of b i a as] by (simp add: zero_fill_Cons)
    finally show ?thesis .
  qed
qed


lemma grow_indirect_closed:
  "free_map f = as @ rest \<Longrightarrow> 0 < n \<Longrightarrow> n < 2 ^ 32 \<Longrightarrow> 12 \<le> blocks di \<Longrightarrow>
   length as = min n (140 - blocks di) \<Longrightarrow>
   grow_indirect f di b n =
     (zero_fill as rest f, di\<lparr>blocks := blocks di + length as\<rparr>,
      place b (blocks di - 12) as, n - length as)"
proof (induction as arbitrary: f di b n)
  case Nil
  then have "\<not> blocks di < 140" by (simp add: min_def split: if_splits)
  then show ?case using Nil by (simp add: grow_indirect_stop zero_fill_Nil place_Nil)
next
  case (Cons a as)
  then have i: "blocks di < 140" by (simp add: min_def split: if_splits)
  have al: "free_map_allocate f = (a, f\<lparr>free_map := as @ rest\<rparr>)"
    using Cons.prems by (simp add: free_map_allocate_Cons)
  have d: "size_t_dec n = n - 1" using Cons.prems by (simp add: size_t_dec_pos)
  let ?f2 = "cache_write (f\<lparr>free_map := as @ rest\<rparr>) a zeros"
  let ?di2 = "di\<lparr>blocks := blocks di + 1\<rparr>"
  let ?p = "blocks di - 12"
  have "Suc (length as) = min n (140 - blocks di)" using Cons.prems by simp
  then have len: "length as = min (n - 1) (140 - blocks ?di2)"
    using i Cons.prems(2) unfolding min_def by (auto split: if_splits)
  have p: "blocks ?di2 - 12 = Suc ?p" using Cons.prems by simp
  show ?case
  proof (cases "n = 1")
    case True
    then have "as = []" using len by simp
    have "grow_indirect f di b n =
        (cache_write (f\<lparr>free_map := rest\<rparr>) a zeros, ?di2, b(?p := a), 0)"
      using True i al d \<open>as = []\<close> by (simp add: grow_indirect_step Let_def)
    also have "\<dots> = (zero_fill [a] rest f, di\<lparr>blocks := blocks di + length [a]\<rparr>,
        place b ?p [a], n - length [a])"
      using True by (simp only: zero_fill_single place_single) simp
    finally show ?thesis using \<open>as = []\<close> by simp
  next
    case False
    then have n1: "0 < n - 1" "n - 1 < 2 ^ 32" using Cons.prems by simp_all
    have fm: "free_map ?f2 = as @ rest" by (simp add: cache_write_def)
    have b12: "12 \<le> blocks ?di2" using Cons.prems by simp
    have "grow_indirect f di b n = grow_indirect ?f2 ?di2 (b(?p := a)) (n - 1)"
      using False i al d Cons.prems by (simp add: grow_indirect_step Let_def)
    also have "\<dots> = (zero_fill as rest ?f2, ?di2\<lparr>blocks := blocks ?di2 + length as\<rparr>,
        place (b(?p := a)) (blocks ?di2 - 12) as, n - 1 - length as)"
      using fm n1 b12 len by (rule Cons.IH)
    also have "\<dots> = (zero_fill (a # as) rest f, di\<lparr>blocks := blocks di + length (a # as)\<rparr>,
        place b ?p (a # as), n - length (a # as))"
      by (simp only: p place_Cons) (simp add: zero_fill_Cons)
    finally show ?thesis .
  qed
qed

lemma grow_direct_closed:
  "free_map f = as @ rest \<Longrightarrow> 0 < n \<Longrightarrow> n < 2 ^ 32 \<Longrightarrow>
   length as = min n (12 - blocks di) \<Longrightarrow>
   grow_direct f di n =
     (zero_fill as rest f,
      di\<lparr>direct := place (direct di) (blocks di) as, blocks := blocks di + length as\<rparr>,
      n - length as, as \<noteq> [] \<and> n = length as)"
proof (induction as arbitrary: f di n)
  case Nil
  then have "\<not> blocks di < 12" by (simp add: min_def split: if_splits)
  then show ?case using Nil by (simp add: grow_direct_stop zero_fill_Nil place_Nil)
next
  case (Cons a as)
  then have i: "blocks di < 12" by (simp add: min_def split: if_splits)
  have al: "free_map_allocate f = (a, f\<lparr>free_map := as @ rest\<rparr>)"
    using Cons.prems by (simp add: free_map_allocate_Cons)
  have d: "size_t_dec n = n - 1" using Cons.prems by (simp add: size_t_dec_pos)
  let ?f2 = "cache_write (f\<lparr>free_map := as @ rest\<rparr>) a zeros"
  let ?di2 = "di\<lparr>direct := (direct di)(blocks di := a), blocks := blocks di + 1\<rparr>"
  have "Suc (length as) = min n (12 - blocks di)" using Cons.prems by simp
  then have len: "length as = min (n - 1) (12 - blocks ?di2)"
    using i Cons.prems(2) unfolding min_def by (auto split: if_splits)
  show ?case
  proof (cases "n = 1")
    case True
    then have "as = []" using len by simp
    have "grow_direct f di n =
        (cache_write (f\<lparr>free_map := rest\<rparr>) a zeros, ?di2, 0, True)"
      using True i al d \<open>as = []\<close> by (simp add: grow_direct_step Let_def)
    also have "\<dots> = (zero_fill [a] rest f,
        di\<lparr>direct := place (direct di) (blocks di) [a], blocks := blocks di + length [a]\<rparr>,
        n - length [a], [a] \<noteq> [] \<and> n = length [a])"
      using True by (simp only: zero_fill_single place_single) simp
    finally show ?thesis using \<open>as = []\<close> by simp
  next
    case False
    then have n1: "0 < n - 1" "n - 1 < 2 ^ 32" using Cons.prems by simp_all
    have fm: "free_map ?f2 = as @ rest" by (simp add: cache_write_def)
    have "grow_direct f di n = grow_direct ?f2 ?di2 (n - 1)"
      using False i al d Cons.prems by (simp add: grow_direct_step Let_def)
    also have "\<dots> = (zero_fill as rest ?f2,
        ?di2\<lparr>direct := place (direct ?di2) (blocks ?di2) as, blocks := blocks ?di2 + length as\<rparr>,
        n - 1 - length as, as \<noteq> [] \<and> n - 1 = length as)"
      using fm n1 len by (rule Cons.IH)
    also have "\<dots> = (zero_fill (a # as) rest f,
        di\<lparr>direct := place (direct di) (blocks di) (a # as),
           blocks := blocks di + length (a # as)\<rparr>,
        n - length (a # as), a # as \<noteq> [] \<and> n = length (a # as))"
      using place_Cons [of "direct di" "blocks di" a as] False Cons.prems(2) len
      by (auto simp: zero_fill_Cons)
    finally show ?thesis .
  qed
qed

subsection \<open>Extending a block map\<close>

lemma extendsI:
  "D' = D @ nd \<Longrightarrow> I' = I @ ni \<Longrightarrow> mset used = mset nd + mset ni \<Longrightarrow>
   \<forall>s\<in>set nd. disk f' s = zeros \<Longrightarrow> free_map f = used @ free_map f' \<Longrightarrow>
   \<forall>s. s \<notin> set used \<and> s \<notin> set I \<longrightarrow> disk f' s = disk f s \<Longrightarrow>
   extends D I f used D' I' f'"
  unfolding extends_def by blast

lemma extends_refl: "extends D I f [] D I f"
  by (simp add: extends_def)

lemma extends_length:
  "extends D I f used D' I' f' \<Longrightarrow>
   length D' + length I' = length D + length I + length used"
proof -
  assume "extends D I f used D' I' f'"
  then obtain nd ni where "D' = D @ nd" "I' = I @ ni" "mset used = mset nd + mset ni"
    unfolding extends_def by blast
  moreover from this have "length used = length nd + length ni"
    by (metis size_mset size_union)
  ultimately show ?thesis by simp
qed

lemma extends_pool: "extends D I f used D' I' f' \<Longrightarrow> free_map f = used @ free_map f'"
  by (simp add: extends_def)

lemma extends_distinct:
  assumes "distinct (D @ I @ free_map f)" "extends D I f used D' I' f'"
  shows "distinct (D' @ I' @ free_map f')"
proof -
  from assms(2) obtain nd ni where e: "D' = D @ nd" "I' = I @ ni"
      "mset used = mset nd + mset ni" "free_map f = used @ free_map f'"
    unfolding extends_def by blast
  have "mset (D' @ I' @ free_map f') = mset (D @ I @ free_map f)"
    using e by simp
  then show ?thesis using assms(1) by (metis mset_eq_imp_distinct_iff)
qed

lemma extends_trans:
  assumes d: "distinct (free_map f)" and dj: "set I \<inter> set (free_map f) = {}"
    and a: "extends D I f u1 D1 I1 f1" and b: "extends D1 I1 f1 u2 D2 I2 f2"
  shows "extends D I f (u1 @ u2) D2 I2 f2"
proof -
  from a obtain nd1 ni1 where a1: "D1 = D @ nd1" "I1 = I @ ni1"
      "mset u1 = mset nd1 + mset ni1" "\<forall>s\<in>set nd1. disk f1 s = zeros"
    and a2: "free_map f = u1 @ free_map f1"
    and a3: "\<forall>s. s \<notin> set u1 \<and> s \<notin> set I \<longrightarrow> disk f1 s = disk f s"
    unfolding extends_def by blast
  from b obtain nd2 ni2 where b1: "D2 = D1 @ nd2" "I2 = I1 @ ni2"
      "mset u2 = mset nd2 + mset ni2" "\<forall>s\<in>set nd2. disk f2 s = zeros"
    and b2: "free_map f1 = u2 @ free_map f2"
    and b3: "\<forall>s. s \<notin> set u2 \<and> s \<notin> set I1 \<longrightarrow> disk f2 s = disk f1 s"
    unfolding extends_def by blast
  have pool: "free_map f = u1 @ u2 @ free_map f2" using a2 b2 by simp
  have u1set: "set u1 = set nd1 \<union> set ni1"
    using a1(3) by (metis set_mset_mset set_mset_union)
  have "distinct u1" using d pool by simp
  then have "distinct (nd1 @ ni1)"
    using a1(3) by (metis mset_append mset_eq_imp_distinct_iff)
  then have nd_ni: "set nd1 \<inter> set ni1 = {}" by simp
  have u12: "set u1 \<inter> set u2 = {}" using d pool by auto
  have Iu1: "set I \<inter> set u1 = {}" using dj pool by auto
  have z: "\<forall>s\<in>set (nd1 @ nd2). disk f2 s = zeros"
  proof
    fix s assume "s \<in> set (nd1 @ nd2)"
    then consider "s \<in> set nd2" | "s \<in> set nd1" by auto
    then show "disk f2 s = zeros"
    proof cases
      case 1 then show ?thesis using b1(4) by simp
    next
      case 2
      then have "s \<in> set u1" using u1set by simp
      then have "s \<notin> set u2" "s \<notin> set I" using u12 Iu1 by auto
      moreover have "s \<notin> set ni1" using 2 nd_ni by auto
      ultimately have "disk f2 s = disk f1 s" using b3 a1(2) by simp
      then show ?thesis using a1(4) 2 by simp
    qed
  qed
  have fr: "\<forall>s. s \<notin> set (u1 @ u2) \<and> s \<notin> set I \<longrightarrow> disk f2 s = disk f s"
  proof (intro allI impI)
    fix s assume s: "s \<notin> set (u1 @ u2) \<and> s \<notin> set I"
    then have "s \<notin> set ni1" using u1set by auto
    then have "disk f2 s = disk f1 s" using b3 a1(2) s by simp
    then show "disk f2 s = disk f s" using a3 s by simp
  qed
  have e: "D2 = D @ (nd1 @ nd2)" "I2 = I @ (ni1 @ ni2)"
    "mset (u1 @ u2) = mset (nd1 @ nd2) + mset (ni1 @ ni2)"
    using a1 b1 by simp_all
  have pool': "free_map f = (u1 @ u2) @ free_map f2" using pool by simp
  show ?thesis using e z pool' fr by (rule extendsI)
qed

subsection \<open>Blocks and slots of the double-indirect tier\<close>

lemma below_block: "k < 128 * q + r \<Longrightarrow> r \<le> 128 \<Longrightarrow> k div 128 \<le> (q::nat)"
proof -
  assume "k < 128 * q + r" "r \<le> 128"
  then have "k < Suc q * 128" by simp
  then have "k div 128 < Suc q" by (rule less_mult_imp_div_less)
  then show ?thesis by simp
qed

lemma in_block: "k < 128 * q + r \<Longrightarrow> k div 128 = q \<Longrightarrow> k mod 128 < (r::nat)"
proof -
  assume a: "k < 128 * q + r" "k div 128 = q"
  have "128 * (k div 128) + k mod 128 = k" by simp
  then have "128 * q + k mod 128 = k" using a(2) by simp
  then show ?thesis using a(1) by linarith
qed

lemma slot_count_block:
  "r \<le> 128 \<Longrightarrow> slot_count (128 * q + r) = q + (if r = 0 then 0 else 1)"
proof (cases "r = 128")
  case True
  have "(128 * Suc q + 0 + 127) div 128 = Suc q + (if (0::nat) = 0 then 0 else 1)"
    by (rule div128_up) simp
  then show ?thesis using True by (simp add: slot_count_def)
next
  case False
  assume "r \<le> 128"
  with False have "r < 128" by simp
  then show ?thesis unfolding slot_count_def by (rule div128_up)
qed

lemma slot_count_mono: "a \<le> b \<Longrightarrow> slot_count a \<le> slot_count b"
  unfolding slot_count_def by (intro div_le_mono) simp

lemma slots_used_slot_count: "slots_used n = slot_count (n - 140)"
  by (simp add: slots_used_def slot_count_def)

lemma length_dbl_data [simp]: "length (dbl_data f b1 c) = c"
  by (simp add: dbl_data_def)

lemma length_dbl_slots [simp]: "length (dbl_slots b1 c) = slot_count c"
  by (simp add: dbl_slots_def)

lemma place_below: "k < p \<Longrightarrow> place arr p as k = arr k"
  by (simp add: place_def)

lemma place_at: "j < length as \<Longrightarrow> place arr p as (p + j) = as ! j"
  by (simp add: place_def)

lemma dbl_data_round:
  assumes i2: "i2 + length as \<le> 128"
    and d3: "disk f3 = (\<lambda>s. if s \<in> set as then zeros else disk f s)
               (sx := words_sector (place bs i2 as))"
    and sx: "b1' i1 = sx"
    and old: "\<forall>k<i1. b1' k = b1 k \<and> b1 k \<noteq> sx \<and> b1 k \<notin> set as"
    and cur: "0 < i2 \<longrightarrow> b1 i1 = sx \<and> (\<forall>j<i2. bs j = sector_words (disk f sx) j)"
  shows "dbl_data f3 b1' (128 * i1 + i2 + length as) = dbl_data f b1 (128 * i1 + i2) @ as"
proof -
  let ?c = "128 * i1 + i2"
  let ?g = "\<lambda>f b k. sector_words (disk f (b (k div 128))) (k mod 128)"
  have u: "[0..<?c + length as] = [0..<?c] @ [?c..<?c + length as]"
    by (rule upt_add_eq_append) simp
  have sxw: "sector_words (disk f3 sx) j = place bs i2 as j" if "j < 128" for j
    using that by (simp add: d3 sector_words_words_sector)
  have a: "map (?g f3 b1') [0..<?c] = map (?g f b1) [0..<?c]"
  proof (rule map_cong [OF refl])
    fix k assume "k \<in> set [0..<?c]"
    then have k: "k < ?c" by simp
    then have le: "k div 128 \<le> i1" using i2 by (intro below_block [of k i1 i2]) simp_all
    show "?g f3 b1' k = ?g f b1 k"
    proof (cases "k div 128 = i1")
      case True
      then have m: "k mod 128 < i2" using k by (intro in_block) simp_all
      then have "0 < i2" by simp
      with cur have c: "b1 i1 = sx" "bs (k mod 128) = sector_words (disk f sx) (k mod 128)"
        using m by simp_all
      have "?g f3 b1' k = place bs i2 as (k mod 128)"
        using True sx by (simp add: sxw)
      also have "\<dots> = bs (k mod 128)" using m by (rule place_below)
      finally show ?thesis using c True by simp
    next
      case False
      with le have "k div 128 < i1" by simp
      with old have "b1' (k div 128) = b1 (k div 128)" "b1 (k div 128) \<noteq> sx"
        "b1 (k div 128) \<notin> set as" by simp_all
      then show ?thesis by (simp add: d3)
    qed
  qed
  have "map (?g f3 b1') [?c..<?c + length as] = map (\<lambda>j. ?g f3 b1' (?c + j)) [0..<length as]"
    by (rule map_upt_shift)
  also have "\<dots> = map (\<lambda>j. as ! j) [0..<length as]"
  proof (rule map_cong [OF refl])
    fix j assume "j \<in> set [0..<length as]"
    then have j: "j < length as" by simp
    then have r: "i2 + j < 128" using i2 by simp
    have "(128 * i1 + (i2 + j)) div 128 = i1" "(128 * i1 + (i2 + j)) mod 128 = i2 + j"
      using r by simp_all
    then have "?g f3 b1' (?c + j) = sector_words (disk f3 sx) (i2 + j)"
      using sx by (simp add: add.assoc)
    also have "\<dots> = place bs i2 as (i2 + j)" using r by (rule sxw)
    also have "\<dots> = as ! j" using j by (rule place_at)
    finally show "?g f3 b1' (?c + j) = as ! j" .
  qed
  also have "\<dots> = as" by (rule map_nth)
  finally have b: "map (?g f3 b1') [?c..<?c + length as] = as" .
  show ?thesis
    unfolding dbl_data_def by (simp only: u map_append a b)
qed


lemma split_pool: "k \<le> length xs \<Longrightarrow> \<exists>as rest. xs = as @ rest \<and> length as = k"
  by (metis append_take_drop_id length_take min.absorb2)

lemma split_pool_Cons:
  "k + 1 \<le> length xs \<Longrightarrow> \<exists>a as rest. xs = a # as @ rest \<and> length as = k"
proof -
  assume "k + 1 \<le> length xs"
  then obtain u rest where u: "xs = u @ rest" "length u = k + 1"
    using split_pool by blast
  then obtain a as where "u = a # as" by (cases u) simp_all
  with u show ?thesis by auto
qed

lemma slot_round_extends:
  assumes i2: "i2 < 128" and n: "0 < n" "n < 2 ^ 32"
    and c: "c = 128 * i1 + i2" and m: "m = min n (128 - i2)"
    and dist: "distinct (dbl_data f b1 c @ dbl_slots b1 c @ free_map f)"
    and pool: "m + (if i2 = 0 then 1 else 0) \<le> length (free_map f)"
  shows "\<exists>f3 b1' b2' used.
     slot_round f di b1 b2 i1 i2 n = (f3, di\<lparr>blocks := blocks di + m\<rparr>, b1', b2', n - m) \<and>
     extends (dbl_data f b1 c) (dbl_slots b1 c) f used
       (dbl_data f3 b1' (c + m)) (dbl_slots b1' (c + m)) f3"
proof -
  have m1: "0 < m" "m \<le> 128 - i2" "i2 + m \<le> 128" using m n i2 by simp_all
  have dpool: "distinct (free_map f)" using dist by simp
  have dslots: "distinct (dbl_slots b1 c)" using dist by simp
  have dj: "set (dbl_slots b1 c) \<inter> set (free_map f) = {}" using dist by auto
  show ?thesis
  proof (cases "i2 = 0")
    case True
    obtain s0 as rest where fm: "free_map f = s0 # as @ rest" and las: "length as = m"
      using pool True split_pool_Cons [of m "free_map f"] by auto
    let ?u = "s0 # as"
    have s0: "s0 \<notin> set as" using dpool fm by simp
    let ?f1 = "f\<lparr>free_map := as @ rest\<rparr>"
    let ?b1 = "b1(i1 := s0)"
    have st: "slot_start f b1 b2 i1 i2 = (?f1, ?b1, b2)"
      using True fm by (simp add: slot_start_def free_map_allocate_Cons)
    have inner: "grow_doubly_inner ?f1 di b2 i2 n =
        (zero_fill as rest ?f1, di\<lparr>blocks := blocks di + length as\<rparr>, place b2 i2 as,
         i2 + length as, n - length as)"
      using n las m by (intro grow_doubly_inner_closed) simp_all
    let ?f3 = "cache_write (zero_fill as rest ?f1) s0 (words_sector (place b2 i2 as))"
    have sr: "slot_round f di b1 b2 i1 i2 n =
        (?f3, di\<lparr>blocks := blocks di + m\<rparr>, ?b1, place b2 i2 as, n - m)"
      by (simp add: slot_round_def st inner las)
    have d3: "disk ?f3 = (\<lambda>s. if s \<in> set as then zeros else disk f s)
        (s0 := words_sector (place b2 i2 as))"
      by (auto simp: cache_write_def zero_fill_def fun_eq_iff)
    have sc: "slot_count c = i1" using c True slot_count_block [of 0 i1] by simp
    have sc': "slot_count (c + m) = i1 + 1"
      using c True m1 slot_count_block [of m i1] by simp
    have old: "\<forall>k<i1. ?b1 k = b1 k \<and> b1 k \<noteq> s0 \<and> b1 k \<notin> set as"
    proof (intro allI impI)
      fix k assume k: "k < i1"
      then have "b1 k \<in> set (dbl_slots b1 c)" by (simp add: dbl_slots_def sc)
      then have "b1 k \<notin> set (free_map f)" using dj by auto
      then show "?b1 k = b1 k \<and> b1 k \<noteq> s0 \<and> b1 k \<notin> set as" using k fm by auto
    qed
    have "dbl_data ?f3 ?b1 (128 * i1 + i2 + length as) = dbl_data f b1 (128 * i1 + i2) @ as"
      using m1 las d3 old True by (intro dbl_data_round [where sx = s0 and bs = b2]) simp_all
    then have D: "dbl_data ?f3 ?b1 (c + m) = dbl_data f b1 c @ as" using c las by simp
    have "map ?b1 [0..<i1] = map b1 [0..<i1]" by (rule map_cong) simp_all
    then have I: "dbl_slots ?b1 (c + m) = dbl_slots b1 c @ [s0]"
      by (simp add: dbl_slots_def sc sc')
    have U: "mset ?u = mset as + mset [s0]" by simp
    have Z: "\<forall>s\<in>set as. disk ?f3 s = zeros" using s0 by (auto simp: d3)
    have P: "free_map f = ?u @ free_map ?f3"
      using fm by (simp add: cache_write_def zero_fill_def)
    have F: "\<forall>s. s \<notin> set ?u \<and> s \<notin> set (dbl_slots b1 c) \<longrightarrow> disk ?f3 s = disk f s"
      by (auto simp: d3)
    have "extends (dbl_data f b1 c) (dbl_slots b1 c) f ?u
        (dbl_data ?f3 ?b1 (c + m)) (dbl_slots ?b1 (c + m)) ?f3"
      using D I U Z P F by (rule extendsI)
    with sr show ?thesis by blast
  next
    case False
    then have pos: "0 < i2" by simp
    obtain as rest where fm: "free_map f = as @ rest" and las: "length as = m"
      using pool False split_pool [of m "free_map f"] by auto
    let ?sx = "b1 i1"
    let ?bs = "sector_words (cache_read f ?sx)"
    have st: "slot_start f b1 b2 i1 i2 = (f, b1, ?bs)"
      using False by (simp add: slot_start_def)
    have inner: "grow_doubly_inner f di ?bs i2 n =
        (zero_fill as rest f, di\<lparr>blocks := blocks di + length as\<rparr>, place ?bs i2 as,
         i2 + length as, n - length as)"
      using n m fm las by (intro grow_doubly_inner_closed) simp_all
    let ?f3 = "cache_write (zero_fill as rest f) ?sx (words_sector (place ?bs i2 as))"
    have sr: "slot_round f di b1 b2 i1 i2 n =
        (?f3, di\<lparr>blocks := blocks di + m\<rparr>, b1, place ?bs i2 as, n - m)"
      using las by (simp add: slot_round_def st inner)
    have d3: "disk ?f3 = (\<lambda>s. if s \<in> set as then zeros else disk f s)
        (?sx := words_sector (place ?bs i2 as))"
      by (auto simp: cache_write_def zero_fill_def fun_eq_iff)
    have sc: "slot_count c = i1 + 1" using c pos i2 slot_count_block [of i2 i1] by simp
    have sc': "slot_count (c + m) = i1 + 1"
      using c pos m1 slot_count_block [of "i2 + m" i1] by (simp add: add.assoc)
    have sxI: "?sx \<in> set (dbl_slots b1 c)" by (simp add: dbl_slots_def sc)
    then have sxp: "?sx \<notin> set (free_map f)" using dj by auto
    then have sxas: "?sx \<notin> set as" using fm by simp
    have inj: "b1 i1 \<notin> b1 ` {0..<i1}"
      using dslots by (simp add: dbl_slots_def sc)
    have old: "\<forall>k<i1. b1 k = b1 k \<and> b1 k \<noteq> ?sx \<and> b1 k \<notin> set as"
    proof (intro allI impI)
      fix k assume k: "k < i1"
      then have "b1 k \<in> set (dbl_slots b1 c)" by (simp add: dbl_slots_def sc)
      then have "b1 k \<notin> set (free_map f)" using dj by auto
      then have "b1 k \<notin> set as" using fm by simp
      moreover have "b1 k \<in> b1 ` {0..<i1}" using k by simp
      then have "b1 k \<noteq> ?sx" using inj by metis
      ultimately show "b1 k = b1 k \<and> b1 k \<noteq> ?sx \<and> b1 k \<notin> set as" by simp
    qed
    have "dbl_data ?f3 b1 (128 * i1 + i2 + length as) = dbl_data f b1 (128 * i1 + i2) @ as"
      using m1 d3 old las
      by (intro dbl_data_round [where sx = ?sx and bs = ?bs]) (simp_all add: cache_read_def)
    then have D: "dbl_data ?f3 b1 (c + m) = dbl_data f b1 c @ as" using c las by simp
    have I: "dbl_slots b1 (c + m) = dbl_slots b1 c @ []"
      by (simp add: dbl_slots_def sc sc')
    have U: "mset as = mset as + mset []" by simp
    have Z: "\<forall>s\<in>set as. disk ?f3 s = zeros" using sxas by (auto simp: d3)
    have P: "free_map f = as @ free_map ?f3"
      using fm by (simp add: cache_write_def zero_fill_def)
    have F: "\<forall>s. s \<notin> set as \<and> s \<notin> set (dbl_slots b1 c) \<longrightarrow> disk ?f3 s = disk f s"
      using sxI by (auto simp: d3)
    have "extends (dbl_data f b1 c) (dbl_slots b1 c) f as
        (dbl_data ?f3 b1 (c + m)) (dbl_slots b1 (c + m)) ?f3"
      using D I U Z P F by (rule extendsI)
    with sr show ?thesis by blast
  qed
qed

lemma grow_doubly_round:
  "i1 < 128 \<Longrightarrow>
   grow_doubly f di b1 b2 i1 i2 n =
     (case slot_round f di b1 b2 i1 i2 n of (f3, di2, b1', b2', n') \<Rightarrow>
        if n' = 0 then (f3, di2, b1') else grow_doubly f3 di2 b1' b2' (i1 + 1) 0 n')"
  by (auto simp: grow_doubly_step slot_round_def Let_def split: prod.splits)

lemma grow_doubly_extends:
  assumes "c = 128 * i1 + i2" "i2 < 128" "0 < n" "c + n \<le> 16384"
    and "distinct (dbl_data f b1 c @ dbl_slots b1 c @ free_map f)"
    and "n + slot_count (c + n) \<le> slot_count c + length (free_map f)"
  shows "\<exists>f' b1' used.
     grow_doubly f di b1 b2 i1 i2 n = (f', di\<lparr>blocks := blocks di + n\<rparr>, b1') \<and>
     extends (dbl_data f b1 c) (dbl_slots b1 c) f used
       (dbl_data f' b1' (c + n)) (dbl_slots b1' (c + n)) f'"
  using assms
proof (induction "128 - i1" arbitrary: f di b1 b2 i1 i2 n c)
  case 0
  then show ?case by simp
next
  case (Suc k)
  then have i1: "i1 < 128" by simp
  define m where "m = min n (128 - i2)"
  have m1: "0 < m" "m \<le> n" "m \<le> 128 - i2" using Suc.prems m_def by simp_all
  have n32: "n < 2 ^ 32" using Suc.prems by simp
  have mono: "slot_count c \<le> slot_count (c + n)" by (rule slot_count_mono) simp
  have pool1: "m + (if i2 = 0 then 1 else 0) \<le> length (free_map f)"
  proof (cases "i2 = 0")
    case True
    then have "slot_count c = i1" using Suc.prems(1) slot_count_block [of 0 i1] by simp
    moreover have "slot_count (c + 1) \<le> slot_count (c + n)"
      using Suc.prems by (intro slot_count_mono) simp
    moreover have "slot_count (c + 1) = i1 + 1"
      using True Suc.prems(1) slot_count_block [of 1 i1] by simp
    ultimately show ?thesis using Suc.prems(6) m1 True by simp
  next
    case False
    then show ?thesis using Suc.prems(6) m1 mono by simp
  qed
  obtain f3 b1' b2' used1 where
    sr: "slot_round f di b1 b2 i1 i2 n = (f3, di\<lparr>blocks := blocks di + m\<rparr>, b1', b2', n - m)"
    and e1: "extends (dbl_data f b1 c) (dbl_slots b1 c) f used1
       (dbl_data f3 b1' (c + m)) (dbl_slots b1' (c + m)) f3"
    using slot_round_extends [OF Suc.prems(2) Suc.prems(3) n32 Suc.prems(1) m_def Suc.prems(5) pool1,
        of di b2]
    by blast
  show ?case
  proof (cases "n - m = 0")
    case True
    then have nm: "m = n" using m1 by simp
    have "grow_doubly f di b1 b2 i1 i2 n = (f3, di\<lparr>blocks := blocks di + n\<rparr>, b1')"
      using i1 sr nm by (simp add: grow_doubly_round)
    with e1 nm show ?thesis by blast
  next
    case False
    then have mlt: "m < n" by simp
    then have m128: "m = 128 - i2" using m_def by simp
    let ?di3 = "di\<lparr>blocks := blocks di + m\<rparr>"
    have c3: "c + m = 128 * (i1 + 1) + 0" using Suc.prems(1,2) m128 by simp
    have k: "k = 128 - (i1 + 1)" using Suc.hyps(2) by simp
    have d3: "distinct (dbl_data f3 b1' (c + m) @ dbl_slots b1' (c + m) @ free_map f3)"
      using Suc.prems(5) e1 by (rule extends_distinct)
    have "length (dbl_data f3 b1' (c + m)) + length (dbl_slots b1' (c + m)) =
        length (dbl_data f b1 c) + length (dbl_slots b1 c) + length used1"
      using e1 by (rule extends_length)
    then have lu: "m + slot_count (c + m) = slot_count c + length used1" by simp
    have "length (free_map f) = length used1 + length (free_map f3)"
      using extends_pool [OF e1] by simp
    with lu Suc.prems(6) mlt
    have pool3: "(n - m) + slot_count (c + m + (n - m)) \<le>
        slot_count (c + m) + length (free_map f3)"
      by simp
    have cap: "c + m + (n - m) \<le> 16384" using Suc.prems(4) mlt by simp
    obtain f' b1'' used2 where
      g: "grow_doubly f3 ?di3 b1' b2' (i1 + 1) 0 (n - m) =
          (f', ?di3\<lparr>blocks := blocks ?di3 + (n - m)\<rparr>, b1'')"
      and e2: "extends (dbl_data f3 b1' (c + m)) (dbl_slots b1' (c + m)) f3 used2
          (dbl_data f' b1'' (c + m + (n - m))) (dbl_slots b1'' (c + m + (n - m))) f'"
      using Suc.hyps(1) [OF k c3 _ _ cap d3 pool3, of ?di3 b2'] mlt by auto
    have cn: "c + m + (n - m) = c + n" using mlt by simp
    have "grow_doubly f di b1 b2 i1 i2 n = (f', di\<lparr>blocks := blocks di + n\<rparr>, b1'')"
      using i1 sr False g mlt by (simp add: grow_doubly_round)
    moreover have "extends (dbl_data f b1 c) (dbl_slots b1 c) f (used1 @ used2)
        (dbl_data f' b1'' (c + n)) (dbl_slots b1'' (c + n)) f'"
    proof (rule extends_trans [OF _ _ e1])
      show "distinct (free_map f)" using Suc.prems(5) by simp
      show "set (dbl_slots b1 c) \<inter> set (free_map f) = {}" using Suc.prems(5) by auto
      show "extends (dbl_data f3 b1' (c + m)) (dbl_slots b1' (c + m)) f3 used2
          (dbl_data f' b1'' (c + n)) (dbl_slots b1'' (c + n)) f'"
        using e2 by (simp only: cn)
    qed
    ultimately show ?thesis by blast
  qed
qed

subsection \<open>The tiers of the growth engine on the block map\<close>

lemma length_data_sectors [simp]: "length (data_sectors f di n) = n"
  by (simp add: data_sectors_def)

lemma length_index_sectors [simp]: "length (index_sectors f di n) = index_count n"
  by (simp add: index_sectors_def index_count_def)

lemma index_count_mono: "a \<le> b \<Longrightarrow> index_count a \<le> index_count b"
  using slot_count_mono [of "a - 140" "b - 140"]
  by (auto simp: index_count_def slots_used_slot_count)

lemma place_map: "map (place arr p as) [0..<p + length as] = map arr [0..<p] @ as"
proof -
  have u: "[0..<p + length as] = [0..<p] @ [p..<p + length as]"
    by (rule upt_add_eq_append) simp
  have a: "map (place arr p as) [0..<p] = map arr [0..<p]"
    by (rule map_cong) (simp_all add: place_below)
  have "map (place arr p as) [p..<p + length as] = map (\<lambda>j. place arr p as (p + j)) [0..<length as]"
    by (rule map_upt_shift)
  also have "\<dots> = map (\<lambda>j. as ! j) [0..<length as]"
    by (rule map_cong) (simp_all add: place_at)
  also have "\<dots> = as" by (rule map_nth)
  finally show ?thesis by (simp only: u map_append a)
qed

lemma grows_refl: "grows f di [] f di"
  by (simp add: grows_def extends_refl same_header_refl)

lemma grows_trans:
  assumes "blockmap_ok f di" "grows f di u1 f1 di1" "grows f1 di1 u2 f2 di2"
  shows "grows f di (u1 @ u2) f2 di2"
proof -
  have d: "distinct (free_map f)"
    and dj: "set (index_sectors f di (blocks di)) \<inter> set (free_map f) = {}"
    using assms(1) by (auto simp: blockmap_ok_def)
  have "extends (data_sectors f di (blocks di)) (index_sectors f di (blocks di)) f (u1 @ u2)
       (data_sectors f2 di2 (blocks di2)) (index_sectors f2 di2 (blocks di2)) f2"
    using d dj assms(2,3) unfolding grows_def by (blast intro: extends_trans)
  moreover have "same_header di di2"
    using assms(2,3) unfolding grows_def by (blast intro: same_header_trans)
  ultimately show ?thesis by (simp add: grows_def)
qed

lemma grows_step:
  assumes ok: "blockmap_ok f di" and g: "grows f di used f' di'"
    and b: "blocks di' = blocks di + m" and m: "m \<le> n" and cap: "blocks di + n \<le> 16524"
    and pool: "n + index_count (blocks di + n) \<le> index_count (blocks di) + length (free_map f)"
  shows "blockmap_ok f' di' \<and>
     (n - m) + index_count (blocks di' + (n - m)) \<le> index_count (blocks di') + length (free_map f')"
proof -
  have e: "extends (data_sectors f di (blocks di)) (index_sectors f di (blocks di)) f used
       (data_sectors f' di' (blocks di')) (index_sectors f' di' (blocks di')) f'"
    using g by (simp add: grows_def)
  have "distinct (data_sectors f' di' (blocks di') @ index_sectors f' di' (blocks di') @ free_map f')"
    using ok e unfolding blockmap_ok_def by (blast intro: extends_distinct)
  then have 1: "blockmap_ok f' di'" using b m cap by (simp add: blockmap_ok_def)
  have "blocks di' + index_count (blocks di') = blocks di + index_count (blocks di) + length used"
    using extends_length [OF e] by simp
  moreover have "length (free_map f) = length used + length (free_map f')"
    using extends_pool [OF e] by simp
  moreover have "blocks di' + (n - m) = blocks di + n" using b m by simp
  ultimately show ?thesis using 1 pool b m by simp
qed

lemma grow_direct_grows:
  assumes lt: "blocks di < 12" and n: "0 < n" "n < 2 ^ 32" and m: "m = min n (12 - blocks di)"
    and pool: "m \<le> length (free_map f)"
  shows "\<exists>f' di' used. grow_direct f di n = (f', di', n - m, n = m) \<and>
     grows f di used f' di' \<and> blocks di' = blocks di + m"
proof -
  obtain as rest where fm: "free_map f = as @ rest" and las: "length as = m"
    using pool split_pool by blast
  have m0: "0 < m" "blocks di + m \<le> 12" using m lt n by simp_all
  let ?N = "blocks di"
  let ?f = "zero_fill as rest f"
  let ?di = "di\<lparr>direct := place (direct di) ?N as, blocks := ?N + length as\<rparr>"
  have c: "grow_direct f di n = (?f, ?di, n - length as, as \<noteq> [] \<and> n = length as)"
    using fm n las m by (intro grow_direct_closed) simp_all
  have ne: "as \<noteq> []" using las m0 by auto
  have D: "data_sectors ?f ?di (blocks ?di) = data_sectors f di ?N @ as"
    using m0 las place_map [of "direct di" ?N as] by (simp add: data_sectors_direct)
  have I: "index_sectors ?f ?di (blocks ?di) = index_sectors f di ?N @ []"
    using m0 las lt by (simp add: index_sectors_def)
  have "extends (data_sectors f di ?N) (index_sectors f di ?N) f as
      (data_sectors ?f ?di (blocks ?di)) (index_sectors ?f ?di (blocks ?di)) ?f"
    using D I
  proof (rule extendsI)
    show "mset as = mset as + mset []" by simp
    show "\<forall>s\<in>set as. disk ?f s = zeros" by (simp add: zero_fill_def)
    show "free_map f = as @ free_map ?f" using fm by (simp add: zero_fill_def)
    show "\<forall>s. s \<notin> set as \<and> s \<notin> set (index_sectors f di ?N) \<longrightarrow> disk ?f s = disk f s"
      by (simp add: zero_fill_def)
  qed
  then have "grows f di as ?f ?di" by (simp add: grows_def same_header_def)
  moreover have "grow_direct f di n = (?f, ?di, n - m, n = m)" using c ne las by simp
  moreover have "blocks ?di = ?N + m" using las by simp
  ultimately show ?thesis by blast
qed

lemma slot_count_cover: "c \<le> 128 * slot_count c"
proof -
  have e: "128 * (c div 128) + c mod 128 = c" by simp
  have "slot_count (128 * (c div 128) + c mod 128) =
      c div 128 + (if c mod 128 = 0 then 0 else 1)"
    by (rule slot_count_block) simp
  then have s: "slot_count c = c div 128 + (if c mod 128 = 0 then 0 else 1)" by (simp only: e)
  have "c mod 128 \<le> 128 * (if c mod 128 = 0 then 0 else 1)" by simp
  then have "128 * (c div 128) + c mod 128 \<le> 128 * slot_count c"
    unfolding s by (simp only: distrib_left add_le_cancel_left)
  then show ?thesis by (simp only: e)
qed

lemma block_slot: "k < c \<Longrightarrow> k div 128 < slot_count c"
proof -
  assume "k < c"
  then have "k < slot_count c * 128" using slot_count_cover [of c] by simp
  then show ?thesis by (rule less_mult_imp_div_less)
qed

lemma views_cong:
  assumes dir: "direct di' = direct di"
    and oth: "\<forall>s\<in>set (index_sectors f di n). s \<noteq> direct di 12 \<longrightarrow> disk f' s = disk f s"
    and ind: "12 < n \<longrightarrow>
        (\<forall>j<128. sector_words (disk f' (direct di 12)) j = sector_words (disk f (direct di 12)) j)"
    and dst: "distinct (index_sectors f di n)"
  shows "data_sectors f' di' n = data_sectors f di n"
    and "index_sectors f' di' n = index_sectors f di n"
proof -
  have top: "top_buf f' di' = top_buf f di" if "140 < n"
  proof -
    have "direct di 13 \<in> set (index_sectors f di n)" "direct di 13 \<noteq> direct di 12"
      using that dst by (auto simp: index_sectors_def)
    then show ?thesis using oth dir by (simp add: top_buf_def)
  qed
  have slot: "slot_buf f' di' outer = slot_buf f di outer" if "140 < n" "outer < slots_used n" for outer
  proof -
    have mem: "top_buf f di outer \<in> set (map (top_buf f di) [0..<slots_used n])"
      using that(2) by simp
    have I: "index_sectors f di n =
        direct di 12 # direct di 13 # map (top_buf f di) [0..<slots_used n]"
      using that(1) by (simp add: index_sectors_def)
    then have "direct di 12 \<notin> set (map (top_buf f di) [0..<slots_used n])"
      using dst by simp
    with mem have "top_buf f di outer \<noteq> direct di 12" by metis
    moreover have "top_buf f di outer \<in> set (index_sectors f di n)"
      using mem unfolding I by simp
    ultimately show ?thesis using oth top [OF that(1)] by (simp add: slot_buf_def)
  qed
  show "index_sectors f' di' n = index_sectors f di n"
    using top dir by (simp add: index_sectors_def)
  show "data_sectors f' di' n = data_sectors f di n"
    unfolding data_sectors_def
  proof (rule map_cong [OF refl])
    fix i assume "i \<in> set [0..<n]"
    then have i: "i < n" by simp
    consider "i < 12" | "12 \<le> i" "i < 140" | "140 \<le> i" by linarith
    then show "data_sector f' di' i = data_sector f di i"
    proof cases
      case 1
      then show ?thesis using dir by (simp add: data_sector_def)
    next
      case 2
      then have "12 < n" "i - 12 < 128" using i by simp_all
      then show ?thesis using 2 ind dir by (simp add: data_sector_def ind_buf_def)
    next
      case 3
      then have n: "140 < n" and k: "i - 140 < n - 140" using i by simp_all
      have "(i - 140) div 128 < slots_used n"
        unfolding slots_used_slot_count using k by (rule block_slot)
      then show ?thesis using 3 slot [OF n] by (simp add: data_sector_def)
    qed
  qed
qed

lemma indirect_view:
  assumes N: "12 \<le> N" "N + length as \<le> 140"
    and d: "disk f' = (\<lambda>s. if s \<in> set as then zeros else disk f s)
        (direct di' 12 := words_sector (place b0 (N - 12) as))"
    and dir: "\<forall>k<12. direct di' k = direct di k"
    and old: "\<forall>j<N - 12. b0 j = ind_buf f di j"
  shows "data_sectors f' di' (N + length as) = data_sectors f di N @ as"
proof -
  let ?p = "N - 12"
  have ib: "ind_buf f' di' j = place b0 ?p as j" if "j < 128" for j
    using that by (simp add: ind_buf_def d sector_words_words_sector)
  have a: "map (direct di') [0..<12] = map (direct di) [0..<12]"
    using dir by (intro map_cong) simp_all
  have "map (ind_buf f' di') [0..<?p + length as] = map (place b0 ?p as) [0..<?p + length as]"
    using N by (intro map_cong) (simp_all add: ib)
  also have "\<dots> = map b0 [0..<?p] @ as" by (rule place_map)
  also have "map b0 [0..<?p] = map (ind_buf f di) [0..<?p]"
    using old by (intro map_cong) simp_all
  finally have b: "map (ind_buf f' di') [0..<?p + length as] = map (ind_buf f di) [0..<?p] @ as" .
  have e: "N + length as - 12 = ?p + length as" using N by simp
  have "data_sectors f' di' (N + length as) =
      map (direct di') [0..<12] @ map (ind_buf f' di') [0..<N + length as - 12]"
    using N by (intro data_sectors_indirect) simp_all
  also have "\<dots> = map (direct di) [0..<12] @ map (ind_buf f di) [0..<?p] @ as"
    by (simp only: e a b)
  also have "\<dots> = data_sectors f di N @ as"
    using N data_sectors_indirect [of N f di] by simp
  finally show ?thesis .
qed

lemma grow_indirect_tier_grows:
  assumes ok: "blockmap_ok f di" and N: "12 \<le> blocks di" and n: "0 < n" "n < 2 ^ 32"
    and m: "m = min n (140 - blocks di)"
    and pool: "m + (if blocks di = 12 then 1 else 0) \<le> length (free_map f)"
  shows "\<exists>f' di' used. grow_indirect_tier g f di n = (f', di', n - m) \<and>
     grows f di used f' di' \<and> blocks di' = blocks di + m"
proof -
  let ?N = "blocks di"
  let ?D = "data_sectors f di ?N" and ?I = "index_sectors f di ?N"
  have dist: "distinct (?D @ ?I @ free_map f)" using ok by (simp add: blockmap_ok_def)
  then have dpool: "distinct (free_map f)" and dI: "distinct ?I"
    and djI: "set ?I \<inter> set (free_map f) = {}" by auto
  consider (a) "?N = 12" | (b) "12 < ?N" "?N < 140" | (c) "140 \<le> ?N" using N by linarith
  then show ?thesis
  proof cases
    case a
    then have m0: "0 < m" "12 + m \<le> 140" using m n by simp_all
    obtain s0 as rest where fm: "free_map f = s0 # as @ rest" and las: "length as = m"
      using pool a split_pool_Cons [of m "free_map f"] by auto
    have s0: "s0 \<notin> set as" using dpool fm by simp
    let ?f1 = "f\<lparr>free_map := as @ rest\<rparr>"
    let ?di1 = "di\<lparr>direct := (direct di)(12 := s0)\<rparr>"
    let ?b = "place (buffer_init g) 0 as"
    let ?f' = "cache_write (zero_fill as rest ?f1) s0 (words_sector ?b)"
    let ?di' = "?di1\<lparr>blocks := 12 + m\<rparr>"
    have al: "free_map_allocate f = (s0, ?f1)" using fm by (rule free_map_allocate_Cons)
    have gi: "grow_indirect ?f1 ?di1 (buffer_init g) n =
        (zero_fill as rest ?f1, ?di1\<lparr>blocks := blocks ?di1 + length as\<rparr>,
         place (buffer_init g) (blocks ?di1 - 12) as, n - length as)"
      using n a las m by (intro grow_indirect_closed) simp_all
    have tier: "grow_indirect_tier g f di n = (?f', ?di', n - m)"
      using a las by (simp add: grow_indirect_tier_def al gi)
    have d: "disk ?f' = (\<lambda>s. if s \<in> set as then zeros else disk f s)
        (direct ?di' 12 := words_sector (place (buffer_init g) (12 - 12) as))"
      by (auto simp: cache_write_def zero_fill_def fun_eq_iff)
    have "data_sectors ?f' ?di' (12 + length as) = data_sectors f di 12 @ as"
      using m0 las d by (intro indirect_view) simp_all
    then have D: "data_sectors ?f' ?di' (blocks ?di') = ?D @ as" using a las by simp
    have I: "index_sectors ?f' ?di' (blocks ?di') = ?I @ [s0]"
      using a m0 by (simp add: index_sectors_def)
    have "extends ?D ?I f (s0 # as) (data_sectors ?f' ?di' (blocks ?di'))
        (index_sectors ?f' ?di' (blocks ?di')) ?f'"
      using D I
    proof (rule extendsI)
      show "mset (s0 # as) = mset as + mset [s0]" by simp
      show "\<forall>s\<in>set as. disk ?f' s = zeros" using s0 by (auto simp: d)
      show "free_map f = (s0 # as) @ free_map ?f'"
        using fm by (simp add: cache_write_def zero_fill_def)
      show "\<forall>s. s \<notin> set (s0 # as) \<and> s \<notin> set ?I \<longrightarrow> disk ?f' s = disk f s"
        by (auto simp: d)
    qed
    then have "grows f di (s0 # as) ?f' ?di'" by (simp add: grows_def same_header_def)
    moreover have "blocks ?di' = ?N + m" using a by simp
    ultimately show ?thesis using tier by blast
  next
    case b
    then have m0: "?N + m \<le> 140" using m by simp
    obtain as rest where fm: "free_map f = as @ rest" and las: "length as = m"
      using pool b split_pool [of m "free_map f"] by auto
    let ?old = "sector_words (cache_read f (direct di 12))"
    let ?b = "place ?old (?N - 12) as"
    let ?f' = "cache_write (zero_fill as rest f) (direct di 12) (words_sector ?b)"
    let ?di' = "di\<lparr>blocks := ?N + m\<rparr>"
    have gi: "grow_indirect f di ?old n =
        (zero_fill as rest f, di\<lparr>blocks := blocks di + length as\<rparr>,
         place ?old (blocks di - 12) as, n - length as)"
      using n N las m fm by (intro grow_indirect_closed) simp_all
    have ne: "blocks di \<noteq> 12" using b by simp
    have tier: "grow_indirect_tier g f di n = (?f', ?di', n - m)"
      using b las by (simp add: grow_indirect_tier_def gi)
    have d12: "direct di 12 \<in> set ?I" using b by (simp add: index_sectors_def)
    then have d12as: "direct di 12 \<notin> set as" using djI fm by auto
    have d: "disk ?f' = (\<lambda>s. if s \<in> set as then zeros else disk f s)
        (direct ?di' 12 := words_sector (place ?old (?N - 12) as))"
      by (auto simp: cache_write_def zero_fill_def fun_eq_iff)
    have "data_sectors ?f' ?di' (?N + length as) = data_sectors f di ?N @ as"
    proof (rule indirect_view [OF N _ d])
      show "?N + length as \<le> 140" using m0 las by simp
      show "\<forall>k<12. direct ?di' k = direct di k" by simp
      show "\<forall>j<?N - 12. ?old j = ind_buf f di j" by (simp add: ind_buf_def cache_read_def)
    qed
    then have D: "data_sectors ?f' ?di' (blocks ?di') = ?D @ as" using las by simp
    have I: "index_sectors ?f' ?di' (blocks ?di') = ?I @ []"
      using b m0 by (simp add: index_sectors_def)
    have "extends ?D ?I f as (data_sectors ?f' ?di' (blocks ?di'))
        (index_sectors ?f' ?di' (blocks ?di')) ?f'"
      using D I
    proof (rule extendsI)
      show "mset as = mset as + mset []" by simp
      show "\<forall>s\<in>set as. disk ?f' s = zeros" using d12as by (auto simp: d)
      show "free_map f = as @ free_map ?f'"
        using fm by (simp add: cache_write_def zero_fill_def)
      show "\<forall>s. s \<notin> set as \<and> s \<notin> set ?I \<longrightarrow> disk ?f' s = disk f s"
        using d12 by (auto simp: d)
    qed
    then have "grows f di as ?f' ?di'" by (simp add: grows_def same_header_def)
    moreover have "blocks ?di' = ?N + m" by simp
    ultimately show ?thesis using tier by blast
  next
    case c
    then have m0: "m = 0" using m by simp
    let ?old = "sector_words (cache_read f (direct di 12))"
    let ?f' = "cache_write f (direct di 12) (words_sector ?old)"
    have tier: "grow_indirect_tier g f di n = (?f', di, n - m)"
      using c m0 by (simp add: grow_indirect_tier_def grow_indirect_stop)
    have d12: "direct di 12 \<in> set ?I" using c by (simp add: index_sectors_def)
    have v: "data_sectors ?f' di ?N = ?D @ []" "index_sectors ?f' di ?N = ?I @ []"
      using dI views_cong [of di di f ?N ?f']
      by (simp_all add: cache_write_def cache_read_def sector_words_words_sector)
    have "extends ?D ?I f [] (data_sectors ?f' di ?N) (index_sectors ?f' di ?N) ?f'"
      using v
    proof (rule extendsI)
      show "mset [] = mset [] + mset ([] :: block_sector_t list)" by simp
      show "\<forall>s\<in>set []. disk ?f' s = zeros" by simp
      show "free_map f = [] @ free_map ?f'" by (simp add: cache_write_def)
      show "\<forall>s. s \<notin> set [] \<and> s \<notin> set ?I \<longrightarrow> disk ?f' s = disk f s"
        using d12 by (auto simp: cache_write_def)
    qed
    then have "grows f di [] ?f' di" by (simp add: grows_def same_header_def)
    moreover have "blocks di = ?N + m" using m0 by simp
    ultimately show ?thesis using tier by blast
  qed
qed

lemma slot_count_cap: "c \<le> 16384 \<Longrightarrow> slot_count c \<le> 128"
proof -
  assume "c \<le> 16384"
  then have "slot_count c \<le> slot_count 16384" by (rule slot_count_mono)
  also have "slot_count 16384 = 128" by (simp add: slot_count_def)
  finally show ?thesis .
qed

lemma doubly_view:
  assumes d: "disk f3 = (disk f2)(direct di2 13 := words_sector b1')"
    and cap: "c \<le> 16384"
    and ne: "\<forall>j. j < slot_count c \<longrightarrow> b1' j \<noteq> direct di2 13"
  shows "map (\<lambda>k. slot_buf f3 di2 (k div 128) (k mod 128)) [0..<c] = dbl_data f2 b1' c"
    and "map (top_buf f3 di2) [0..<slot_count c] = dbl_slots b1' c"
proof -
  have sc: "slot_count c \<le> 128" using cap by (rule slot_count_cap)
  have top: "top_buf f3 di2 outer = b1' outer" if "outer < slot_count c" for outer
    using that sc by (simp add: top_buf_def d sector_words_words_sector)
  show "map (top_buf f3 di2) [0..<slot_count c] = dbl_slots b1' c"
    unfolding dbl_slots_def by (rule map_cong) (simp_all add: top)
  show "map (\<lambda>k. slot_buf f3 di2 (k div 128) (k mod 128)) [0..<c] = dbl_data f2 b1' c"
    unfolding dbl_data_def
  proof (rule map_cong [OF refl])
    fix k assume "k \<in> set [0..<c]"
    then have "k < c" by simp
    then have o: "k div 128 < slot_count c" by (rule block_slot)
    then have "b1' (k div 128) \<noteq> direct di2 13" using ne by simp
    then show "slot_buf f3 di2 (k div 128) (k mod 128) =
        sector_words (disk f2 (b1' (k div 128))) (k mod 128)"
      using top [OF o] by (simp add: slot_buf_def d)
  qed
qed

lemma dbl_data_top: "map (\<lambda>k. slot_buf f di (k div 128) (k mod 128)) [0..<c] = dbl_data f (top_buf f di) c"
  by (simp add: dbl_data_def slot_buf_def)

lemma slot_count_0: "slot_count 0 = 0"
  by (simp add: slot_count_def)

lemma grow_doubly_tier_grows:
  assumes ok: "blockmap_ok f di" and N: "140 \<le> blocks di" and n: "0 < n"
    and cap: "blocks di + n \<le> 16524"
    and pool: "n + index_count (blocks di + n) \<le> index_count (blocks di) + length (free_map f)"
  shows "\<exists>f' di' used. grow_doubly_tier g f di n = (f', di') \<and>
     grows f di used f' di' \<and> blocks di' = blocks di + n"
proof -
  let ?N = "blocks di"
  let ?D = "data_sectors f di ?N" and ?I = "index_sectors f di ?N"
  let ?low = "map (direct di) [0..<12] @ map (ind_buf f di) [0..<128]"
  have dist: "distinct (?D @ ?I @ free_map f)" using ok by (simp add: blockmap_ok_def)
  then have dpool: "distinct (free_map f)" and dI: "distinct ?I"
    and djI: "set ?I \<inter> set (free_map f) = {}" by auto
  have d12: "direct di 12 \<in> set ?I" using N by (simp add: index_sectors_def)
  have d12p: "direct di 12 \<notin> set (free_map f)" using d12 djI by auto
  consider (a) "?N = 140" | (b) "140 < ?N" using N by linarith
  then show ?thesis
  proof cases
    case a
    have ic: "index_count (140 + n) = 2 + slot_count n" "index_count 140 = 1"
      using n by (simp_all add: index_count_def slots_used_slot_count)
    have pl: "n + slot_count n + 1 \<le> length (free_map f)" using pool a ic by simp
    then obtain s13 pool1 where fm: "free_map f = s13 # pool1"
      by (cases "free_map f") auto
    have s13: "s13 \<notin> set pool1" and dp1: "distinct pool1" using dpool fm by simp_all
    let ?f1 = "f\<lparr>free_map := pool1\<rparr>"
    let ?di1 = "di\<lparr>direct := (direct di)(13 := s13)\<rparr>"
    have al: "free_map_allocate f = (s13, ?f1)" using fm by (rule free_map_allocate_Cons)
    have "\<exists>f' b1' used.
       grow_doubly ?f1 ?di1 (buffer1_init g) (buffer2_init g) 0 0 n =
         (f', ?di1\<lparr>blocks := blocks ?di1 + n\<rparr>, b1') \<and>
       extends (dbl_data ?f1 (buffer1_init g) 0) (dbl_slots (buffer1_init g) 0) ?f1 used
         (dbl_data f' b1' (0 + n)) (dbl_slots b1' (0 + n)) f'"
    proof (rule grow_doubly_extends)
      show "0 = 128 * 0 + (0::nat)" by simp
      show "(0::nat) < 128" by simp
      show "0 < n" by (rule n)
      show "0 + n \<le> 16384" using cap a by simp
      show "distinct (dbl_data ?f1 (buffer1_init g) 0 @ dbl_slots (buffer1_init g) 0 @ free_map ?f1)"
        using dp1 by (simp add: dbl_data_def dbl_slots_def slot_count_0)
      show "n + slot_count (0 + n) \<le> slot_count 0 + length (free_map ?f1)"
        using pl fm by (simp add: slot_count_0)
    qed
    then obtain f2 b1' used2 where
      gd: "grow_doubly ?f1 ?di1 (buffer1_init g) (buffer2_init g) 0 0 n =
         (f2, ?di1\<lparr>blocks := 140 + n\<rparr>, b1')"
      and e: "extends [] [] ?f1 used2 (dbl_data f2 b1' n) (dbl_slots b1' n) f2"
      using a by (auto simp: dbl_data_def dbl_slots_def slot_count_0)
    let ?di' = "?di1\<lparr>blocks := 140 + n\<rparr>"
    let ?f3 = "cache_write f2 s13 (words_sector b1')"
    have tier: "grow_doubly_tier g f di n = (?f3, ?di')"
      using a by (simp add: grow_doubly_tier_def al gd)
    from e obtain nd ni where nd: "dbl_data f2 b1' n = nd" and ni: "dbl_slots b1' n = ni"
      and ms: "mset used2 = mset nd + mset ni"
      and z: "\<forall>s\<in>set nd. disk f2 s = zeros"
      and p2: "pool1 = used2 @ free_map f2"
      and fr: "\<forall>s. s \<notin> set used2 \<longrightarrow> disk f2 s = disk f s"
      unfolding extends_def by auto
    have us: "set used2 = set nd \<union> set ni" using ms by (metis set_mset_mset set_mset_union)
    have s13u: "s13 \<notin> set used2" using s13 p2 by simp
    have d12u: "direct di 12 \<notin> set used2" "direct di 12 \<noteq> s13" using d12p fm p2 by auto
    have ne: "\<forall>j. j < slot_count n \<longrightarrow> b1' j \<noteq> direct ?di' 13"
    proof (intro allI impI)
      fix j assume "j < slot_count n"
      then have "b1' j \<in> set (dbl_slots b1' n)" by (simp add: dbl_slots_def)
      then have "b1' j \<in> set used2" using ni us by simp
      then show "b1' j \<noteq> direct ?di' 13" using s13u by auto
    qed
    have d3: "disk ?f3 = (disk f2)(direct ?di' 13 := words_sector b1')"
      by (simp add: cache_write_def)
    have cn: "n \<le> 16384" using cap a by simp
    have v1: "map (\<lambda>k. slot_buf ?f3 ?di' (k div 128) (k mod 128)) [0..<n] = nd"
      using doubly_view(1) [OF d3 cn ne] nd by simp
    have v2: "map (top_buf ?f3 ?di') [0..<slot_count n] = ni"
      using doubly_view(2) [OF d3 cn ne] ni by simp
    have ib: "ind_buf ?f3 ?di' = ind_buf f di"
      using d12u fr by (simp add: ind_buf_def cache_write_def)
    have dl: "map (direct ?di') [0..<12] = map (direct di) [0..<12]"
      by (intro map_cong) simp_all
    have "data_sectors ?f3 ?di' (140 + n) = ?low @ nd"
      using data_sectors_doubly [of "140 + n" ?f3 ?di'] by (simp only: ib dl) (simp add: v1)
    moreover have "data_sectors f di 140 = ?low"
      using data_sectors_doubly [of 140 f di] by simp
    ultimately have D: "data_sectors ?f3 ?di' (blocks ?di') = ?D @ nd" using a by simp
    have I: "index_sectors ?f3 ?di' (blocks ?di') = ?I @ (s13 # ni)"
      using a n v2 by (simp add: index_sectors_def slots_used_slot_count)
    have "extends ?D ?I f (s13 # used2) (data_sectors ?f3 ?di' (blocks ?di'))
        (index_sectors ?f3 ?di' (blocks ?di')) ?f3"
      using D I
    proof (rule extendsI)
      show "mset (s13 # used2) = mset nd + mset (s13 # ni)" using ms by simp
      show "\<forall>s\<in>set nd. disk ?f3 s = zeros"
        using z us s13u by (auto simp: cache_write_def)
      show "free_map f = (s13 # used2) @ free_map ?f3"
        using fm p2 by (simp add: cache_write_def)
      show "\<forall>s. s \<notin> set (s13 # used2) \<and> s \<notin> set ?I \<longrightarrow> disk ?f3 s = disk f s"
        using fr by (auto simp: cache_write_def)
    qed
    then have "grows f di (s13 # used2) ?f3 ?di'" by (simp add: grows_def same_header_def)
    moreover have "blocks ?di' = ?N + n" using a by simp
    ultimately show ?thesis using tier by blast
  next
    case b
    define c where "c = ?N - 140"
    have c0: "0 < c" and Nc: "?N = 140 + c" using b by (simp_all add: c_def)
    let ?b1 = "top_buf f di"
    let ?d13 = "direct di 13"
    have ic: "index_count ?N = 2 + slot_count c" "index_count (?N + n) = 2 + slot_count (c + n)"
      using b n Nc by (simp_all add: index_count_def slots_used_slot_count)
    have Deq: "?D = ?low @ dbl_data f ?b1 c"
      using data_sectors_doubly [of ?N f di] N by (simp add: dbl_data_top c_def)
    have Ieq: "?I = [direct di 12, ?d13] @ dbl_slots ?b1 c"
      using b by (simp add: index_sectors_def slots_used_slot_count dbl_slots_def c_def)
    have d13: "?d13 \<in> set ?I" using Ieq by simp
    have d13s: "?d13 \<notin> set (dbl_slots ?b1 c)" "direct di 12 \<notin> set (dbl_slots ?b1 c)"
      "direct di 12 \<noteq> ?d13"
      using dI unfolding Ieq by auto
    have d13p: "?d13 \<notin> set (free_map f)" using d13 djI by auto
    have dd: "distinct (dbl_data f ?b1 c @ dbl_slots ?b1 c @ free_map f)"
      using dist unfolding Deq Ieq by auto
    have "\<exists>f' b1' used.
       grow_doubly f di ?b1 (buffer2_init g) (c div 128) (c mod 128) n =
         (f', di\<lparr>blocks := blocks di + n\<rparr>, b1') \<and>
       extends (dbl_data f ?b1 c) (dbl_slots ?b1 c) f used
         (dbl_data f' b1' (c + n)) (dbl_slots b1' (c + n)) f'"
    proof (rule grow_doubly_extends)
      show "c = 128 * (c div 128) + c mod 128" by simp
      show "c mod 128 < 128" by simp
      show "0 < n" by (rule n)
      show "c + n \<le> 16384" using cap Nc by simp
      show "distinct (dbl_data f ?b1 c @ dbl_slots ?b1 c @ free_map f)" by (rule dd)
      show "n + slot_count (c + n) \<le> slot_count c + length (free_map f)"
        using pool ic by simp
    qed
    then obtain f2 b1' used where
      gd: "grow_doubly f di ?b1 (buffer2_init g) (c div 128) (c mod 128) n =
         (f2, di\<lparr>blocks := ?N + n\<rparr>, b1')"
      and e: "extends (dbl_data f ?b1 c) (dbl_slots ?b1 c) f used
         (dbl_data f2 b1' (c + n)) (dbl_slots b1' (c + n)) f2"
      by blast
    let ?di' = "di\<lparr>blocks := ?N + n\<rparr>"
    let ?f3 = "cache_write f2 ?d13 (words_sector b1')"
    have ne140: "?N \<noteq> 140" using b by simp
    have tier: "grow_doubly_tier g f di n = (?f3, ?di')"
      using ne140 gd by (simp add: grow_doubly_tier_def top_buf_def cache_read_def c_def)
    from e obtain nd ni where nd: "dbl_data f2 b1' (c + n) = dbl_data f ?b1 c @ nd"
      and ni: "dbl_slots b1' (c + n) = dbl_slots ?b1 c @ ni"
      and ms: "mset used = mset nd + mset ni"
      and z: "\<forall>s\<in>set nd. disk f2 s = zeros"
      and p2: "free_map f = used @ free_map f2"
      and fr: "\<forall>s. s \<notin> set used \<and> s \<notin> set (dbl_slots ?b1 c) \<longrightarrow> disk f2 s = disk f s"
      unfolding extends_def by auto
    have us: "set used = set nd \<union> set ni" using ms by (metis set_mset_mset set_mset_union)
    have d13u: "?d13 \<notin> set used" "direct di 12 \<notin> set used" using d13p d12p p2 by auto
    have ne: "\<forall>j. j < slot_count (c + n) \<longrightarrow> b1' j \<noteq> direct ?di' 13"
    proof (intro allI impI)
      fix j assume "j < slot_count (c + n)"
      then have "b1' j \<in> set (dbl_slots b1' (c + n))" by (simp add: dbl_slots_def)
      then have "b1' j \<in> set (dbl_slots ?b1 c) \<union> set used" using ni us by auto
      then show "b1' j \<noteq> direct ?di' 13" using d13s(1) d13u(1) by auto
    qed
    have d3: "disk ?f3 = (disk f2)(direct ?di' 13 := words_sector b1')"
      by (simp add: cache_write_def)
    have cn: "c + n \<le> 16384" using cap Nc by simp
    have v1: "map (\<lambda>k. slot_buf ?f3 ?di' (k div 128) (k mod 128)) [0..<c + n] =
        dbl_data f ?b1 c @ nd"
      using doubly_view(1) [OF d3 cn ne] nd by simp
    have v2: "map (top_buf ?f3 ?di') [0..<slot_count (c + n)] = dbl_slots ?b1 c @ ni"
      using doubly_view(2) [OF d3 cn ne] ni by simp
    have "disk f2 (direct di 12) = disk f (direct di 12)"
      using fr d13u(2) d13s(2) by simp
    then have ib: "ind_buf ?f3 ?di' = ind_buf f di"
      using d13s(3) by (simp add: ind_buf_def cache_write_def)
    have dl: "map (direct ?di') [0..<12] = map (direct di) [0..<12]"
      by (intro map_cong) simp_all
    have e1: "?N + n - 140 = c + n" using Nc by simp
    have "data_sectors ?f3 ?di' (?N + n) = ?low @ dbl_data f ?b1 c @ nd"
      using data_sectors_doubly [of "?N + n" ?f3 ?di'] N by (simp only: ib dl e1) (simp add: v1)
    then have D: "data_sectors ?f3 ?di' (blocks ?di') = ?D @ nd" unfolding Deq by simp
    have "index_sectors ?f3 ?di' (?N + n) = [direct di 12, ?d13] @ dbl_slots ?b1 c @ ni"
      using b v2 e1 by (simp add: index_sectors_def slots_used_slot_count)
    then have I: "index_sectors ?f3 ?di' (blocks ?di') = ?I @ ni" unfolding Ieq by simp
    have "extends ?D ?I f used (data_sectors ?f3 ?di' (blocks ?di'))
        (index_sectors ?f3 ?di' (blocks ?di')) ?f3"
      using D I
    proof (rule extendsI)
      show "mset used = mset nd + mset ni" by (rule ms)
      show "\<forall>s\<in>set nd. disk ?f3 s = zeros"
        using z us d13u(1) by (auto simp: cache_write_def)
      show "free_map f = used @ free_map ?f3" using p2 by (simp add: cache_write_def)
      show "\<forall>s. s \<notin> set used \<and> s \<notin> set ?I \<longrightarrow> disk ?f3 s = disk f s"
        using fr unfolding Ieq by (auto simp: cache_write_def)
    qed
    then have "grows f di used ?f3 ?di'" by (simp add: grows_def same_header_def)
    moreover have "blocks ?di' = ?N + n" by simp
    ultimately show ?thesis using tier by blast
  qed
qed

lemma index_count_low: "n \<le> 12 \<Longrightarrow> index_count n = 0"
  by (simp add: index_count_def)

lemma index_count_pos: "12 < n \<Longrightarrow> 0 < index_count n"
  by (simp add: index_count_def)

lemma grow_direct_phase:
  assumes n: "0 < n" "n < 2 ^ 32"
    and pool: "n + index_count (blocks di + n) \<le> index_count (blocks di) + length (free_map f)"
  shows "\<exists>f1 di1 u1 m1. grow_direct f di n = (f1, di1, n - m1, n = m1) \<and>
     grows f di u1 f1 di1 \<and> blocks di1 = blocks di + m1 \<and> m1 \<le> n \<and>
     (m1 < n \<longrightarrow> 12 \<le> blocks di1)"
proof (cases "blocks di < 12")
  case True
  define m where "m = min n (12 - blocks di)"
  have "index_count (blocks di) = 0" using True by (simp add: index_count_low)
  then have "m \<le> length (free_map f)" using pool m_def by simp
  then obtain f' di' used where "grow_direct f di n = (f', di', n - m, n = m)"
    "grows f di used f' di'" "blocks di' = blocks di + m"
    using grow_direct_grows [OF True n m_def] by blast
  moreover have "m \<le> n" "m < n \<longrightarrow> 12 \<le> blocks di + m" using m_def True by auto
  ultimately show ?thesis by metis
next
  case False
  then have "grow_direct f di n = (f, di, n - 0, n = 0)" using n by (simp add: grow_direct_stop)
  moreover have "grows f di [] f di" by (rule grows_refl)
  moreover have "blocks di = blocks di + 0" "(0::nat) \<le> n" "0 < n \<longrightarrow> 12 \<le> blocks di"
    using False by simp_all
  ultimately show ?thesis by blast
qed

lemma grow_indirect_phase:
  assumes ok: "blockmap_ok f di" and N: "12 \<le> blocks di" and n: "0 < n" "n < 2 ^ 32"
    and pool: "n + index_count (blocks di + n) \<le> index_count (blocks di) + length (free_map f)"
  shows "\<exists>f2 di2 u2 m2. grow_indirect_tier g f di n = (f2, di2, n - m2) \<and>
     grows f di u2 f2 di2 \<and> blocks di2 = blocks di + m2 \<and> m2 \<le> n \<and>
     (m2 < n \<longrightarrow> 140 \<le> blocks di2)"
proof -
  define m where "m = min n (140 - blocks di)"
  have "m + (if blocks di = 12 then 1 else 0) \<le> length (free_map f)"
  proof (cases "blocks di = 12")
    case True
    then have "index_count (blocks di) = 0" "0 < index_count (blocks di + n)"
      using n by (simp_all add: index_count_low index_count_pos)
    then show ?thesis using pool m_def True by simp
  next
    case False
    have "index_count (blocks di) \<le> index_count (blocks di + n)"
      by (rule index_count_mono) simp
    then show ?thesis using pool m_def False by simp
  qed
  then obtain f' di' used where "grow_indirect_tier g f di n = (f', di', n - m)"
    "grows f di used f' di'" "blocks di' = blocks di + m"
    using grow_indirect_tier_grows [OF ok N n m_def] by blast
  moreover have "m \<le> n" "m < n \<longrightarrow> 140 \<le> blocks di + m" using m_def N by auto
  ultimately show ?thesis by metis
qed

lemma inode_grow_grows:
  assumes ok: "blockmap_ok f di"
    and ns: "size_t_sub (bytes_to_sectors len) (bytes_to_sectors (length_d di)) = n"
    and n: "0 < n" and cap: "blocks di + n \<le> 16524"
    and pool: "n + index_count (blocks di + n) \<le> index_count (blocks di) + length (free_map f)"
  shows "\<exists>f' di' used. inode_grow g f di len = (len, di', f') \<and>
     grows f di used f' di' \<and> blocks di' = blocks di + n"
proof -
  have n32: "n < 2 ^ 32" using cap by simp
  obtain f1 di1 u1 m1 where d: "grow_direct f di n = (f1, di1, n - m1, n = m1)"
    and g1: "grows f di u1 f1 di1" and b1: "blocks di1 = blocks di + m1" and m1: "m1 \<le> n"
    and l1: "m1 < n \<longrightarrow> 12 \<le> blocks di1"
    using grow_direct_phase [OF n n32 pool] by blast
  show ?thesis
  proof (cases "n = m1")
    case True
    then have "inode_grow g f di len = (len, di1, f1)"
      using n d by (simp add: inode_grow_def ns)
    then show ?thesis using g1 b1 True by blast
  next
    case False
    define n1 where "n1 = n - m1"
    have n1: "0 < n1" "n1 < 2 ^ 32" "blocks di1 + n1 \<le> 16524" and N1: "12 \<le> blocks di1"
      using False m1 l1 cap b1 by (simp_all add: n1_def)
    have s1: "blockmap_ok f1 di1 \<and>
        n1 + index_count (blocks di1 + n1) \<le> index_count (blocks di1) + length (free_map f1)"
      unfolding n1_def using ok g1 b1 m1 cap pool by (rule grows_step)
    then have ok1: "blockmap_ok f1 di1"
      and pool1: "n1 + index_count (blocks di1 + n1) \<le>
         index_count (blocks di1) + length (free_map f1)" by simp_all
    obtain f2 di2 u2 m2 where i: "grow_indirect_tier g f1 di1 n1 = (f2, di2, n1 - m2)"
      and g2: "grows f1 di1 u2 f2 di2" and b2: "blocks di2 = blocks di1 + m2" and m2: "m2 \<le> n1"
      and l2: "m2 < n1 \<longrightarrow> 140 \<le> blocks di2"
      using grow_indirect_phase [OF ok1 N1 n1(1,2) pool1] by blast
    have g12: "grows f di (u1 @ u2) f2 di2" using ok g1 g2 by (rule grows_trans)
    have d': "grow_direct f di n = (f1, di1, n1, False)" using d False by (simp add: n1_def)
    show ?thesis
    proof (cases "n1 = m2")
      case True
      then have "inode_grow g f di len = (len, di2, f2)"
        using n d' i by (simp add: inode_grow_def ns)
      moreover have "blocks di2 = blocks di + n" using b2 b1 True m1 by (simp add: n1_def)
      ultimately show ?thesis using g12 by blast
    next
      case F2: False
      define n2 where "n2 = n1 - m2"
      have n2: "0 < n2" "blocks di2 + n2 \<le> 16524" and N2: "140 \<le> blocks di2"
        using F2 m2 l2 n1 b2 by (simp_all add: n2_def)
      have s2: "blockmap_ok f2 di2 \<and>
          n2 + index_count (blocks di2 + n2) \<le> index_count (blocks di2) + length (free_map f2)"
        unfolding n2_def using ok1 g2 b2 m2 n1(3) pool1 by (rule grows_step)
      then have ok2: "blockmap_ok f2 di2"
        and pool2: "n2 + index_count (blocks di2 + n2) \<le>
           index_count (blocks di2) + length (free_map f2)" by simp_all
      obtain f3 di3 u3 where t: "grow_doubly_tier g f2 di2 n2 = (f3, di3)"
        and g3: "grows f2 di2 u3 f3 di3" and b3: "blocks di3 = blocks di2 + n2"
        using grow_doubly_tier_grows [OF ok2 N2 n2 pool2] by blast
      have g123: "grows f di ((u1 @ u2) @ u3) f3 di3" using ok g12 g3 by (rule grows_trans)
      have i': "grow_indirect_tier g f1 di1 n1 = (f2, di2, n2)" using i by (simp add: n2_def)
      have "inode_grow g f di len = (len, di3, f3)"
        using n d' i' t n2(1) by (simp add: inode_grow_def ns)
      moreover have "blocks di3 = blocks di + n"
        using b3 b2 b1 m1 m2 by (simp add: n2_def n1_def)
      ultimately show ?thesis using g123 by blast
    qed
  qed
qed

subsection \<open>Growth\<close>

lemma bytes_to_sectors_mono:
  assumes "0 \<le> a" "a \<le> b" "b < 2 ^ 31"
  shows "bytes_to_sectors a \<le> bytes_to_sectors b"
proof -
  have "(a + 511) div 512 \<le> (b + 511) div 512" using assms by (intro zdiv_mono1) simp_all
  then show ?thesis using assms by (simp add: bytes_to_sectors_nonneg)
qed

lemma bytes_to_sectors_cap:
  assumes "0 \<le> a" "a \<le> 16524 * 512"
  shows "bytes_to_sectors a \<le> 16524"
proof -
  have "bytes_to_sectors a \<le> bytes_to_sectors (16524 * 512)"
    using assms by (intro bytes_to_sectors_mono) simp_all
  also have "bytes_to_sectors (16524 * 512) = 16524" by (simp add: bytes_to_sectors_nonneg)
  finally show ?thesis .
qed

lemma inode_grow_within:
  assumes ok: "blockmap_ok f di"
    and bl: "blocks di = bytes_to_sectors (length_d di)"
    and len: "0 \<le> length_d di" "length_d di < len" "len \<le> 16524 * 512"
    and n: "n = bytes_to_sectors len - bytes_to_sectors (length_d di)"
    and pool: "n + index_count (blocks di + n) \<le> index_count (blocks di) + length (free_map f)"
  shows "\<exists>f' di' used. inode_grow g f di len = (len, di', f') \<and>
     grows f di used f' di' \<and> blocks di' = blocks di + n \<and>
     blocks di + n = bytes_to_sectors len \<and> bytes_to_sectors len \<le> 16524"
proof -
  have le: "bytes_to_sectors (length_d di) \<le> bytes_to_sectors len"
    using len by (intro bytes_to_sectors_mono) simp_all
  have c: "bytes_to_sectors len \<le> 16524" using len by (intro bytes_to_sectors_cap) simp_all
  have ns: "size_t_sub (bytes_to_sectors len) (bytes_to_sectors (length_d di)) = n"
    using size_t_sub_le [OF le bytes_to_sectors_less] n by simp
  have tot: "blocks di + n = bytes_to_sectors len" using le n bl by simp
  have "\<exists>f' di' used. inode_grow g f di len = (len, di', f') \<and>
     grows f di used f' di' \<and> blocks di' = blocks di + n"
  proof (cases "n = 0")
    case True
    then have "inode_grow g f di len = (len, di, f)" by (simp add: inode_grow_def ns)
    then show ?thesis using True grows_refl [of f di] by auto
  next
    case False
    then have "0 < n" by simp
    moreover have "blocks di + n \<le> 16524" using tot c by simp
    ultimately show ?thesis using ok ns pool by (intro inode_grow_grows) simp_all
  qed
  then show ?thesis using tot c by blast
qed

text \<open>
  C2, within the capacity of the block map: for a record with a well-formed
  block map whose block count agrees with its length, a target length above
  the current length and within
  the 16524 addressable sectors, and a free map that holds the sectors needed
  (\<open>n\<close> data sectors and the index sectors that come into use), \<^verbatim>\<open>inode_grow\<close>
  returns the target length; it takes a prefix \<open>used\<close> of the free map and each
  sector taken is one of \<open>n = \<lceil>len / 512\<rceil> - \<lceil>length / 512\<rceil>\<close> new data sectors or
  one of the index sectors that the new block count needs and the old one did
  not; the new data sectors follow the old ones in the order of the tiers, hold
  zeros, and the block count is the old one plus \<open>n\<close>; no other field of the
  record changes, no sector outside \<open>used\<close> and the old index sectors is written,
  and the block map stays well formed.
\<close>

theorem inode_grow_allocates:
  assumes ok: "blockmap_ok f di"
    and bl: "blocks di = bytes_to_sectors (length_d di)"
    and len: "0 \<le> length_d di" "length_d di < len" "len \<le> 16524 * 512"
    and n: "n = bytes_to_sectors len - bytes_to_sectors (length_d di)"
    and pool: "n + index_count (blocks di + n) \<le> index_count (blocks di) + length (free_map f)"
  shows "\<exists>di' f' nd ni used.
     inode_grow g f di len = (len, di', f') \<and>
     same_header di di' \<and>
     blocks di' = bytes_to_sectors len \<and> blocks di' = blocks di + n \<and>
     data_sectors f' di' (blocks di') = data_sectors f di (blocks di) @ nd \<and>
     length nd = n \<and>
     index_sectors f' di' (blocks di') = index_sectors f di (blocks di) @ ni \<and>
     length ni = index_count (blocks di') - index_count (blocks di) \<and>
     free_map f = used @ free_map f' \<and>
     mset used = mset nd + mset ni \<and>
     (\<forall>s\<in>set nd. disk f' s = zeros) \<and>
     (\<forall>s. s \<notin> set used \<and> s \<notin> set (index_sectors f di (blocks di)) \<longrightarrow>
        disk f' s = disk f s) \<and>
     blockmap_ok f' di'"
proof -
  obtain f' di' used where r: "inode_grow g f di len = (len, di', f')"
    and g: "grows f di used f' di'" and b: "blocks di' = blocks di + n"
    and tot: "blocks di + n = bytes_to_sectors len" and c: "bytes_to_sectors len \<le> 16524"
    using inode_grow_within [OF ok bl len n pool] by blast
  from g have h: "same_header di di'"
    and e: "extends (data_sectors f di (blocks di)) (index_sectors f di (blocks di)) f used
       (data_sectors f' di' (blocks di')) (index_sectors f' di' (blocks di')) f'"
    by (simp_all add: grows_def)
  from e obtain nd ni where
    D: "data_sectors f' di' (blocks di') = data_sectors f di (blocks di) @ nd"
    and I: "index_sectors f' di' (blocks di') = index_sectors f di (blocks di) @ ni"
    and ms: "mset used = mset nd + mset ni"
    and z: "\<forall>s\<in>set nd. disk f' s = zeros"
    and p: "free_map f = used @ free_map f'"
    and fr: "\<forall>s. s \<notin> set used \<and> s \<notin> set (index_sectors f di (blocks di)) \<longrightarrow>
        disk f' s = disk f s"
    unfolding extends_def by blast
  have "length (data_sectors f' di' (blocks di')) = length (data_sectors f di (blocks di) @ nd)"
    by (simp only: D)
  then have lnd: "length nd = n" using b by simp
  have "length (index_sectors f' di' (blocks di')) =
      length (index_sectors f di (blocks di) @ ni)"
    by (simp only: I)
  then have lni: "length ni = index_count (blocks di') - index_count (blocks di)" by simp
  have "distinct (data_sectors f' di' (blocks di') @ index_sectors f' di' (blocks di') @
      free_map f')"
    using ok e unfolding blockmap_ok_def by (blast intro: extends_distinct)
  then have ok': "blockmap_ok f' di'" using b tot c by (simp add: blockmap_ok_def)
  have b': "blocks di' = bytes_to_sectors len" using b tot by simp
  show ?thesis using r h b' b D lnd I lni p ms z fr ok' by blast
qed

theorem inode_grow_allocates_witness:
  "blockmap_ok ex_fs_pool new_disk_inode \<and>
   blocks new_disk_inode = bytes_to_sectors (length_d new_disk_inode) \<and>
   length_d new_disk_inode < 600 \<and>
   (\<exists>di' f'. inode_grow ex_grow_stack ex_fs_pool new_disk_inode 600 = (600, di', f') \<and>
      blocks di' = 2 \<and> set (data_sectors f' di' 2) = {20, 21} \<and> free_map f' = [22])"
proof -
  have a: "blockmap_ok ex_fs_pool new_disk_inode"
    by (simp add: blockmap_ok_def ex_fs_pool_def new_disk_inode_def data_sectors_def
        index_sectors_def)
  have b: "blocks new_disk_inode = bytes_to_sectors (length_d new_disk_inode)"
    by (simp add: new_disk_inode_def bytes_to_sectors_nonneg)
  have n: "(2::nat) = bytes_to_sectors 600 - bytes_to_sectors (length_d new_disk_inode)"
    by (simp add: new_disk_inode_def bytes_to_sectors_nonneg)
  have l: "0 \<le> length_d new_disk_inode" "length_d new_disk_inode < 600" "(600::int) \<le> 16524 * 512"
    by (simp_all add: new_disk_inode_def)
  have p: "2 + index_count (blocks new_disk_inode + 2) \<le>
      index_count (blocks new_disk_inode) + length (free_map ex_fs_pool)"
    by (simp add: new_disk_inode_def index_count_def ex_fs_pool_def)
  have i0: "index_sectors ex_fs_pool new_disk_inode (blocks new_disk_inode) = []"
    "data_sectors ex_fs_pool new_disk_inode (blocks new_disk_inode) = []"
    by (simp_all add: new_disk_inode_def index_sectors_def data_sectors_def)
  have b2: "bytes_to_sectors 600 = 2" by (simp add: bytes_to_sectors_nonneg)
  note th = inode_grow_allocates [OF a b l n p, of ex_grow_stack]
  from th obtain di' f' nd ni used where
    r: "inode_grow ex_grow_stack ex_fs_pool new_disk_inode 600 = (600, di', f')"
    and bl0: "blocks di' = bytes_to_sectors 600"
    and D0: "data_sectors f' di' (blocks di') =
       data_sectors ex_fs_pool new_disk_inode (blocks new_disk_inode) @ nd"
    and lnd: "length nd = 2"
    and lni: "length ni = index_count (blocks di') - index_count (blocks new_disk_inode)"
    and fm: "free_map ex_fs_pool = used @ free_map f'"
    and ms: "mset used = mset nd + mset ni"
    by blast
  have bl: "blocks di' = 2" using bl0 b2 by simp
  have D: "data_sectors f' di' (blocks di') = nd" using D0 i0 by simp
  have ni: "ni = []" using lni bl by (simp add: index_count_def)
  then have mu: "mset used = mset nd" using ms by simp
  then have "length used = 2" using lnd by (metis size_mset)
  then have "used = [20, 21]" "free_map f' = [22]"
    using fm [symmetric] by (simp_all add: ex_fs_pool_def append_eq_conv_conj)
  moreover have "set nd = set used" using mu by (metis set_mset_mset)
  ultimately have "set (data_sectors f' di' 2) = {20, 21}" "free_map f' = [22]"
    using D bl by auto
  then show ?thesis using a b l(2) r bl by blast
qed

lemma inode_grow_full:
  "\<exists>f2. inode_grow ex_grow_stack ex_fs_pool ex_full_disk 8460289 = (8460289, ex_full_disk, f2) \<and>
     free_map f2 = free_map ex_fs_pool \<and> (\<forall>s. length (disk f2 s) = 512)"
proof -
  have s: "bytes_to_sectors 8460289 = 16525" "bytes_to_sectors (length_d ex_full_disk) = 16524"
    by (simp_all add: ex_full_disk_def bytes_to_sectors_nonneg)
  have n: "size_t_sub 16525 16524 = 1" by (simp add: size_t_sub_le)
  have b: "blocks ex_full_disk = 16524" by (simp add: ex_full_disk_def)
  have d: "grow_direct ex_fs_pool ex_full_disk 1 = (ex_fs_pool, ex_full_disk, 1, False)"
    by (simp add: grow_direct_stop b)
  obtain f1 where i: "grow_indirect_tier ex_grow_stack ex_fs_pool ex_full_disk 1 =
      (f1, ex_full_disk, 1)" and p1: "free_map f1 = free_map ex_fs_pool"
    and l1: "\<forall>s. length (disk f1 s) = 512"
    by (simp add: grow_indirect_tier_def grow_indirect_stop b cache_write_def ex_fs_pool_def
        length_zeros length_words_sector)
  obtain f2 where t: "grow_doubly_tier ex_grow_stack f1 ex_full_disk 1 = (f2, ex_full_disk)"
    and p2: "free_map f2 = free_map f1" and l2: "\<forall>s. length (disk f2 s) = 512"
    using l1 by (simp add: grow_doubly_tier_def grow_doubly_stop b cache_write_def
        length_words_sector)
  have "inode_grow ex_grow_stack ex_fs_pool ex_full_disk 8460289 = (8460289, ex_full_disk, f2)"
    using d i t by (simp add: inode_grow_def s n)
  then show ?thesis using p1 p2 l2 by auto
qed

text \<open>
  C2 does not hold beyond the capacity of the block map: for a record that
  already uses the 16524 addressable blocks and a target one byte beyond them,
  the code allocates nothing, leaves the block count at 16524 and returns the
  target length.
\<close>

theorem inode_grow_beyond_capacity:
  "length_d ex_full_disk < 8460289 \<and>
   blocks ex_full_disk = bytes_to_sectors (length_d ex_full_disk) \<and>
   bytes_to_sectors 8460289 - bytes_to_sectors (length_d ex_full_disk) = 1 \<and>
   fst (inode_grow ex_grow_stack ex_fs_pool ex_full_disk 8460289) = 8460289 \<and>
   blocks (fst (snd (inode_grow ex_grow_stack ex_fs_pool ex_full_disk 8460289))) = 16524 \<and>
   free_map (snd (snd (inode_grow ex_grow_stack ex_fs_pool ex_full_disk 8460289))) =
     free_map ex_fs_pool"
proof -
  have s: "bytes_to_sectors 8460289 = 16525" "bytes_to_sectors (length_d ex_full_disk) = 16524"
    by (simp_all add: ex_full_disk_def bytes_to_sectors_nonneg)
  have b: "blocks ex_full_disk = 16524" "length_d ex_full_disk < 8460289"
    by (simp_all add: ex_full_disk_def)
  obtain f2 where
    "inode_grow ex_grow_stack ex_fs_pool ex_full_disk 8460289 = (8460289, ex_full_disk, f2)"
    "free_map f2 = free_map ex_fs_pool"
    using inode_grow_full by blast
  then show ?thesis using s b by simp
qed

subsection \<open>Writing and reading back\<close>

declare read_loop.simps [simp del] write_loop.simps [simp del]

lemma smod_nonneg: "0 \<le> (x::int) \<Longrightarrow> x smod 512 = x mod 512"
  by (simp add: signed_modulo_int_def sgn_if)

lemma write_loop_step:
  assumes off: "0 \<le> offset" and sz: "0 < sz" and fit: "offset + sz \<le> inode_length ino"
    and r: "r = offset mod 512" and c: "c = min sz (512 - r)"
    and S: "S = byte_to_sector f ino offset"
    and len: "length (disk f S) = 512"
  shows "write_loop True f ino buffer sz offset bw =
     write_loop True
       (cache_write f S
          (take (nat r) (disk f S) @ take (nat c) (drop (nat bw) buffer) @
           drop (nat r + nat c) (disk f S)))
       ino buffer (sz - c) (offset + c) (bw + c)"
proof -
  have rb: "0 \<le> r" "r < 512" using r by simp_all
  have ch: "(if sz < (if inode_length ino - offset < int BLOCK_SECTOR_SIZE - r
                      then inode_length ino - offset else int BLOCK_SECTOR_SIZE - r) then sz
          else (if inode_length ino - offset < int BLOCK_SECTOR_SIZE - r
                then inode_length ino - offset else int BLOCK_SECTOR_SIZE - r)) = c"
    unfolding c using sz fit rb by (auto simp: min_def)
  have c0: "0 < c" "c \<le> 512 - r" using c sz rb by simp_all
  have sm: "offset smod int BLOCK_SECTOR_SIZE = r" using off r by (simp add: smod_nonneg)
  have "0 < r \<or> c < 512 - r" if "\<not> (r = 0 \<and> c = 512)"
    using that rb c0 by linarith
  then have step: "write_loop True f ino buffer sz offset bw =
      (if r = 0 \<and> c = 512
       then write_loop True (cache_write f S (take 512 (drop (nat bw) buffer)))
              ino buffer (sz - c) (offset + c) (bw + c)
       else write_loop True
              (cache_write f S
                 (take (nat r) (disk f S) @ take (nat c) (drop (nat bw) buffer) @
                  drop (nat r + nat c) (disk f S)))
              ino buffer (sz - c) (offset + c) (bw + c))"
    unfolding write_loop.simps [of True f ino buffer sz offset bw] Let_def sm ch
    using sz c0 by (simp add: S cache_read_def)
  show ?thesis using step len by (cases "r = 0 \<and> c = 512") simp_all
qed

lemma read_loop_step:
  assumes off: "0 \<le> offset" and sz: "0 < sz" and fit: "offset + sz \<le> inode_length ino"
    and r: "r = offset mod 512" and c: "c = min sz (512 - r)"
    and S: "S = byte_to_sector f ino offset"
    and len: "length (disk f S) = 512"
  shows "read_loop True f ino sz offset br acc =
     read_loop True f ino (sz - c) (offset + c) (br + c)
       (acc @ take (nat c) (drop (nat r) (disk f S)))"
proof -
  have rb: "0 \<le> r" "r < 512" using r by simp_all
  have ch: "(if sz < (if inode_length ino - offset < int BLOCK_SECTOR_SIZE - r
                      then inode_length ino - offset else int BLOCK_SECTOR_SIZE - r) then sz
          else (if inode_length ino - offset < int BLOCK_SECTOR_SIZE - r
                then inode_length ino - offset else int BLOCK_SECTOR_SIZE - r)) = c"
    unfolding c using sz fit rb by (auto simp: min_def)
  have c0: "0 < c" "c \<le> 512 - r" using c sz rb by simp_all
  have sm: "offset smod int BLOCK_SECTOR_SIZE = r" using off r by (simp add: smod_nonneg)
  have step: "read_loop True f ino sz offset br acc =
      (if r = 0 \<and> c = 512
       then read_loop True f ino (sz - c) (offset + c) (br + c) (acc @ disk f S)
       else read_loop True f ino (sz - c) (offset + c) (br + c)
              (acc @ take (nat c) (drop (nat r) (disk f S))))"
    unfolding read_loop.simps [of True f ino sz offset br acc] Let_def sm ch
    using sz c0 by (simp add: S cache_read_def)
  show ?thesis using step len by (cases "r = 0 \<and> c = 512") simp_all
qed

lemma write_loop_stop: "\<not> 0 < sz \<Longrightarrow> write_loop mem f ino buffer sz offset bw = (bw, f)"
  by (simp add: write_loop.simps)

lemma read_loop_stop: "\<not> 0 < sz \<Longrightarrow> read_loop mem f ino sz offset br acc = (br, acc)"
  by (simp add: read_loop.simps)

lemma views_frame:
  assumes d: "distinct (data_sectors f di N @ index_sectors f di N)"
    and fr: "\<forall>s. s \<notin> set (data_sectors f di N) \<longrightarrow> disk f' s = disk f s"
  shows "data_sectors f' di N = data_sectors f di N"
    and "index_sectors f' di N = index_sectors f di N"
proof -
  have dj: "s \<notin> set (data_sectors f di N)" if "s \<in> set (index_sectors f di N)" for s
    using d that by auto
  have oth: "\<forall>s\<in>set (index_sectors f di N). s \<noteq> direct di 12 \<longrightarrow> disk f' s = disk f s"
    using dj fr by blast
  have ind: "12 < N \<longrightarrow>
      (\<forall>j<128. sector_words (disk f' (direct di 12)) j = sector_words (disk f (direct di 12)) j)"
  proof
    assume "12 < N"
    then have "direct di 12 \<in> set (index_sectors f di N)" by (simp add: index_sectors_def)
    then have "disk f' (direct di 12) = disk f (direct di 12)" using dj fr by blast
    then show "\<forall>j<128. sector_words (disk f' (direct di 12)) j =
        sector_words (disk f (direct di 12)) j" by simp
  qed
  have dst: "distinct (index_sectors f di N)" using d by simp
  show "data_sectors f' di N = data_sectors f di N"
    using refl oth ind dst by (rule views_cong(1))
  show "index_sectors f' di N = index_sectors f di N"
    using refl oth ind dst by (rule views_cong(2))
qed

lemma data_sectors_nth: "i < N \<Longrightarrow> data_sectors f di N ! i = data_sector f di i"
  by (simp add: data_sectors_def)

lemma block_lt:
  assumes "0 \<le> offset" "offset < L" "L < 2 ^ 31"
  shows "nat (offset div 512) < bytes_to_sectors L"
proof -
  have "(offset + 512) div 512 \<le> (L + 511) div 512" using assms by (intro zdiv_mono1) simp_all
  moreover have "(offset + 512) div 512 = offset div 512 + 1" by simp
  moreover have "0 \<le> offset div 512" using assms by simp
  ultimately have "nat (offset div 512) < nat ((L + 511) div 512)" by linarith
  then show ?thesis using assms by (simp add: bytes_to_sectors_nonneg)
qed

lemma next_block:
  fixes p k r :: int
  assumes "512 * k + 512 \<le> p"
  shows "k + 1 \<le> p div 512"
proof -
  have "(512 * (k + 1)) div 512 \<le> p div 512" using assms by (intro zdiv_mono1) simp_all
  then show ?thesis by simp
qed

lemma splice_length:
  assumes "length old = 512" "r + c \<le> 512" "b + c \<le> length buffer"
  shows "length (take r old @ take c (drop b buffer) @ drop (r + c) old) = 512"
  using assms by simp

lemma splice_chunk:
  assumes "length old = 512" "r + c \<le> 512" "b + c \<le> length buffer"
  shows "take c (drop r (take r old @ take c (drop b buffer) @ drop (r + c) old)) =
     take c (drop b buffer)"
  using assms by simp

lemma take_chunks: "take a (drop b xs) @ take k (drop (b + a) xs) = take (a + k) (drop b xs)"
  by (simp add: take_add add.commute)

lemma write_read_loops:
  assumes L: "inode_length ino = L" "0 \<le> L" "L \<le> 16524 * 512"
    and N: "N = bytes_to_sectors L"
    and d: "distinct (data_sectors f (data ino) N @ index_sectors f (data ino) N)"
    and secs: "\<forall>s\<in>set (data_sectors f (data ino) N). length (disk f s) = 512"
    and off: "0 \<le> offset" and sz: "0 \<le> sz" and fit: "offset + sz \<le> L"
    and bw: "0 \<le> bw" and buf: "nat bw + nat sz \<le> length buffer"
  shows "\<exists>f'. write_loop True f ino buffer sz offset bw = (bw + sz, f') \<and>
       (\<forall>br acc. read_loop True f' ino sz offset br acc =
          (br + sz, acc @ take (nat sz) (drop (nat bw) buffer))) \<and>
       (\<forall>s. (\<forall>p. offset \<le> p \<and> p < offset + sz \<longrightarrow>
                 s \<noteq> data_sector f (data ino) (nat (p div 512))) \<longrightarrow>
            disk f' s = disk f s) \<and>
       free_map f' = free_map f"
  using d secs off sz fit bw buf
proof (induction "nat sz" arbitrary: f sz offset bw rule: less_induct)
  case less
  note d = less.prems(1) and secs = less.prems(2) and off = less.prems(3)
    and sz = less.prems(4) and fit = less.prems(5) and bw = less.prems(6) and buf = less.prems(7)
  let ?di = "data ino"
  let ?D = "data_sectors f ?di N"
  show ?case
  proof (cases "0 < sz")
    case False
    then have "sz = 0" using sz by simp
    then show ?thesis by (simp add: write_loop_stop read_loop_stop)
  next
    case True
    have L31: "L < 2 ^ 31" using L by simp
    have N16: "N \<le> 16524" unfolding N using L by (intro bytes_to_sectors_cap) simp_all
    define k where "k = offset div 512"
    define r where "r = offset mod 512"
    define c where "c = min sz (512 - r)"
    define q where "q = nat k"
    define S where "S = data_sector f ?di q"
    have rb: "0 \<le> r" "r < 512" by (simp_all add: r_def)
    have k0: "0 \<le> k" using off by (simp add: k_def)
    have okr: "offset = 512 * k + r" by (simp add: k_def r_def)
    have c0: "0 < c" "c \<le> sz" "c \<le> 512 - r" using True rb by (simp_all add: c_def)
    have cs: "c = 512 - r" if "c < sz" using that by (simp add: c_def)
    have pN: "nat (p div 512) < N" if "0 \<le> p" "p < L" for p
      unfolding N using that L31 by (rule block_lt)
    have qN: "q < N" unfolding q_def k_def using off True fit by (intro pN) simp_all
    have SD: "S = ?D ! q" using qN by (simp add: S_def data_sectors_nth)
    have Sin: "S \<in> set ?D" unfolding SD using qN by (intro nth_mem) simp
    have lenS: "length (disk f S) = 512" using secs Sin by blast
    have bs: "byte_to_sector f ino offset = S"
      unfolding S_def q_def k_def
      using off True fit L(1) qN N16
      by (intro byte_to_sector_data) (simp_all add: inode_length_def q_def k_def)
    define x where "x = take (nat r) (disk f S) @ take (nat c) (drop (nat bw) buffer) @
        drop (nat r + nat c) (disk f S)"
    define f1 where "f1 = cache_write f S x"
    have nrc: "nat r + nat c \<le> 512" using rb c0 by simp
    have nbc: "nat bw + nat c \<le> length buffer" using buf c0 by simp
    have lx: "length x = 512" unfolding x_def using lenS nrc nbc by (rule splice_length)
    have tx: "take (nat c) (drop (nat r) x) = take (nat c) (drop (nat bw) buffer)"
      unfolding x_def using lenS nrc nbc by (rule splice_chunk)
    have fit': "offset + sz \<le> inode_length ino" using fit L(1) by simp
    have w1: "write_loop True f ino buffer sz offset bw =
        write_loop True f1 ino buffer (sz - c) (offset + c) (bw + c)"
      unfolding f1_def x_def
      using off True fit' r_def c_def bs [symmetric] lenS by (rule write_loop_step)
    have fr1: "disk f1 s = disk f s" if "s \<noteq> S" for s
      using that by (simp add: f1_def cache_write_def)
    have f1S: "disk f1 S = x" by (simp add: f1_def cache_write_def)
    have fm1: "free_map f1 = free_map f" by (simp add: f1_def cache_write_def)
    have "\<forall>s. s \<notin> set ?D \<longrightarrow> disk f1 s = disk f s"
    proof (intro allI impI)
      fix s assume "s \<notin> set ?D"
      then have "s \<noteq> S" using Sin by metis
      then show "disk f1 s = disk f s" by (rule fr1)
    qed
    then have v1: "data_sectors f1 ?di N = ?D" "index_sectors f1 ?di N = index_sectors f ?di N"
      using d by (rule views_frame [rotated])+
    have d1: "distinct (data_sectors f1 ?di N @ index_sectors f1 ?di N)" using d v1 by simp
    have secs1: "\<forall>s\<in>set (data_sectors f1 ?di N). length (disk f1 s) = 512"
    proof
      fix s assume "s \<in> set (data_sectors f1 ?di N)"
      then have "s \<in> set ?D" using v1 by simp
      then show "length (disk f1 s) = 512" using secs lx fr1 [of s] f1S by (cases "s = S") simp_all
    qed
    have ds1: "data_sector f1 ?di i = data_sector f ?di i" if "i < N" for i
      using that v1(1) data_sectors_nth [of i N f1 ?di] data_sectors_nth [of i N f ?di] by simp
    have m: "nat (sz - c) < nat sz" using c0 True by simp
    have "\<exists>f'. write_loop True f1 ino buffer (sz - c) (offset + c) (bw + c) =
         (bw + c + (sz - c), f') \<and>
       (\<forall>br acc. read_loop True f' ino (sz - c) (offset + c) br acc =
          (br + (sz - c), acc @ take (nat (sz - c)) (drop (nat (bw + c)) buffer))) \<and>
       (\<forall>s. (\<forall>p. offset + c \<le> p \<and> p < offset + c + (sz - c) \<longrightarrow>
                 s \<noteq> data_sector f1 (data ino) (nat (p div 512))) \<longrightarrow>
            disk f' s = disk f1 s) \<and>
       free_map f' = free_map f1"
      using m d1 secs1
    proof (rule less.hyps)
      show "0 \<le> offset + c" using off c0 by simp
      show "0 \<le> sz - c" using c0 by simp
      show "offset + c + (sz - c) \<le> L" using fit by simp
      show "0 \<le> bw + c" using bw c0 by simp
      show "nat (bw + c) + nat (sz - c) \<le> length buffer" using buf bw c0 by simp
    qed
    then obtain f' where
      w2: "write_loop True f1 ino buffer (sz - c) (offset + c) (bw + c) = (bw + sz, f')"
      and r2: "\<And>br acc. read_loop True f' ino (sz - c) (offset + c) br acc =
          (br + (sz - c), acc @ take (nat (sz - c)) (drop (nat (bw + c)) buffer))"
      and fr2: "\<And>s. (\<forall>p. offset + c \<le> p \<and> p < offset + sz \<longrightarrow>
                 s \<noteq> data_sector f1 (data ino) (nat (p div 512))) \<Longrightarrow>
            disk f' s = disk f1 s"
      and fm2: "free_map f' = free_map f1"
      by auto
    have later: "nat (p div 512) < N \<and> nat (p div 512) \<noteq> q"
      if p: "offset + c \<le> p" "p < offset + sz" for p
    proof -
      have "c < sz" using p by simp
      then have "c = 512 - r" by (rule cs)
      then have "512 * k + 512 \<le> p" using p okr by simp
      then have "k + 1 \<le> p div 512" by (rule next_block)
      then have "nat (p div 512) \<noteq> q" using k0 by (simp add: q_def)
      moreover have "nat (p div 512) < N" using p off c0 fit by (intro pN) simp_all
      ultimately show ?thesis by simp
    qed
    have dD: "distinct ?D" using d by simp
    have keep: "disk f' S = x"
    proof -
      have "\<forall>p. offset + c \<le> p \<and> p < offset + sz \<longrightarrow>
          S \<noteq> data_sector f1 (data ino) (nat (p div 512))"
      proof (intro allI impI)
        fix p assume p: "offset + c \<le> p \<and> p < offset + sz"
        then have i: "nat (p div 512) < N" "nat (p div 512) \<noteq> q" using later by simp_all
        have "data_sector f1 ?di (nat (p div 512)) = ?D ! nat (p div 512)"
          using i(1) by (simp add: ds1 data_sectors_nth)
        moreover have "?D ! nat (p div 512) \<noteq> ?D ! q"
          using dD i qN by (simp add: nth_eq_iff_index_eq)
        ultimately show "S \<noteq> data_sector f1 (data ino) (nat (p div 512))" using SD by simp
      qed
      then have "disk f' S = disk f1 S" by (rule fr2)
      then show ?thesis using f1S by simp
    qed
    have inD: "data_sector f1 ?di (nat (p div 512)) \<in> set ?D"
      if "offset \<le> p" "p < offset + sz" for p
    proof -
      have i: "nat (p div 512) < N" using that off fit by (intro pN) simp_all
      then have "data_sector f1 ?di (nat (p div 512)) = ?D ! nat (p div 512)"
        by (simp add: ds1 data_sectors_nth)
      then show ?thesis using i by simp
    qed
    have out: "\<forall>s. s \<notin> set ?D \<longrightarrow> disk f' s = disk f s"
    proof (intro allI impI)
      fix s assume s: "s \<notin> set ?D"
      have "\<forall>p. offset + c \<le> p \<and> p < offset + sz \<longrightarrow>
          s \<noteq> data_sector f1 (data ino) (nat (p div 512))"
      proof (intro allI impI)
        fix p assume p: "offset + c \<le> p \<and> p < offset + sz"
        then have "offset \<le> p" using c0 by simp
        then have "data_sector f1 ?di (nat (p div 512)) \<in> set ?D" using p inD by simp
        then show "s \<noteq> data_sector f1 (data ino) (nat (p div 512))" using s by auto
      qed
      then have "disk f' s = disk f1 s" by (rule fr2)
      moreover have "s \<noteq> S" using s Sin by metis
      ultimately show "disk f' s = disk f s" using fr1 by simp
    qed
    have v': "data_sectors f' ?di N = ?D" using d out by (rule views_frame(1))
    have "byte_to_sector f' ino offset = data_sector f' ?di q"
      unfolding q_def k_def
      using off True fit L(1) qN N16
      by (intro byte_to_sector_data) (simp_all add: inode_length_def q_def k_def)
    also have "\<dots> = data_sectors f' ?di N ! q" using qN by (simp add: data_sectors_nth)
    also have "\<dots> = S" using v' SD by simp
    finally have bs': "byte_to_sector f' ino offset = S" .
    have lenS': "length (disk f' S) = 512" using keep lx by simp
    have rd: "read_loop True f' ino sz offset br acc =
        (br + sz, acc @ take (nat sz) (drop (nat bw) buffer))" for br acc
    proof -
      have "read_loop True f' ino sz offset br acc =
          read_loop True f' ino (sz - c) (offset + c) (br + c)
            (acc @ take (nat c) (drop (nat r) (disk f' S)))"
        using off True fit' r_def c_def bs' [symmetric] lenS' by (rule read_loop_step)
      also have "\<dots> = (br + c + (sz - c),
          (acc @ take (nat c) (drop (nat r) (disk f' S))) @
          take (nat (sz - c)) (drop (nat (bw + c)) buffer))"
        by (rule r2)
      also have "take (nat c) (drop (nat r) (disk f' S)) = take (nat c) (drop (nat bw) buffer)"
        using keep tx by simp
      also have "nat (bw + c) = nat bw + nat c" using bw c0 by simp
      also have "(acc @ take (nat c) (drop (nat bw) buffer)) @
          take (nat (sz - c)) (drop (nat bw + nat c) buffer) =
          acc @ take (nat c + nat (sz - c)) (drop (nat bw) buffer)"
        by (simp add: take_chunks)
      also have "nat c + nat (sz - c) = nat sz" using c0 by simp
      finally show ?thesis by simp
    qed
    have frame: "\<forall>s. (\<forall>p. offset \<le> p \<and> p < offset + sz \<longrightarrow>
                 s \<noteq> data_sector f (data ino) (nat (p div 512))) \<longrightarrow>
            disk f' s = disk f s"
    proof (intro allI impI)
      fix s assume H: "\<forall>p. offset \<le> p \<and> p < offset + sz \<longrightarrow>
                 s \<noteq> data_sector f (data ino) (nat (p div 512))"
      have "s \<noteq> data_sector f (data ino) (nat (offset div 512))" using H True by simp
      then have sS: "s \<noteq> S" by (simp add: S_def q_def k_def)
      have "\<forall>p. offset + c \<le> p \<and> p < offset + sz \<longrightarrow>
          s \<noteq> data_sector f1 (data ino) (nat (p div 512))"
      proof (intro allI impI)
        fix p assume p: "offset + c \<le> p \<and> p < offset + sz"
        then have "nat (p div 512) < N" using later by simp
        then have "data_sector f1 ?di (nat (p div 512)) = data_sector f ?di (nat (p div 512))"
          by (rule ds1)
        moreover have "offset \<le> p" using p c0 by simp
        ultimately show "s \<noteq> data_sector f1 (data ino) (nat (p div 512))" using H p by simp
      qed
      then have "disk f' s = disk f1 s" by (rule fr2)
      then show "disk f' s = disk f s" using fr1 [OF sS] by simp
    qed
    have "write_loop True f ino buffer sz offset bw = (bw + sz, f')" using w1 w2 by simp
    moreover have "free_map f' = free_map f" using fm1 fm2 by simp
    ultimately show ?thesis using rd frame by blast
  qed
qed

lemma grown_views:
  assumes ok: "blockmap_ok f di"
    and g: "grows f di used f1 di'"
    and own: "s0 \<notin> set (data_sectors f di (blocks di)) \<union> set (index_sectors f di (blocks di)) \<union>
        set (free_map f)"
    and secs: "\<forall>s\<in>set (data_sectors f di (blocks di)). length (disk f s) = 512"
    and N: "N = blocks di'"
  shows "distinct (data_sectors (cache_write f1 s0 x) (di'\<lparr>length_d := len\<rparr>) N @
           index_sectors (cache_write f1 s0 x) (di'\<lparr>length_d := len\<rparr>) N)"
    and "\<forall>s\<in>set (data_sectors (cache_write f1 s0 x) (di'\<lparr>length_d := len\<rparr>) N).
           length (disk (cache_write f1 s0 x) s) = 512"
proof -
  let ?D = "data_sectors f di (blocks di)" and ?I = "index_sectors f di (blocks di)"
  let ?D1 = "data_sectors f1 di' N" and ?I1 = "index_sectors f1 di' N"
  let ?f2 = "cache_write f1 s0 x" and ?di2 = "di'\<lparr>length_d := len\<rparr>"
  have dist: "distinct (?D @ ?I @ free_map f)" using ok by (simp add: blockmap_ok_def)
  have e: "extends ?D ?I f used ?D1 ?I1 f1" using g N by (simp add: grows_def)
  then obtain nd ni where D1: "?D1 = ?D @ nd" and I1: "?I1 = ?I @ ni"
    and ms: "mset used = mset nd + mset ni"
    and z: "\<forall>s\<in>set nd. disk f1 s = zeros"
    and p: "free_map f = used @ free_map f1"
    and fr: "\<forall>s. s \<notin> set used \<and> s \<notin> set ?I \<longrightarrow> disk f1 s = disk f s"
    unfolding extends_def by blast
  have us: "set used = set nd \<union> set ni" using ms by (metis set_mset_mset set_mset_union)
  have up: "set used \<subseteq> set (free_map f)" using p by auto
  have d1: "distinct (?D1 @ ?I1 @ free_map f1)" using dist e by (rule extends_distinct)
  have s0: "s0 \<notin> set ?D1" "s0 \<notin> set ?I1" using own us up D1 I1 by auto
  have oth: "\<forall>s\<in>set ?I1. s \<noteq> direct di' 12 \<longrightarrow> disk ?f2 s = disk f1 s"
    using s0 by (auto simp: cache_write_def)
  have ind: "12 < N \<longrightarrow>
      (\<forall>j<128. sector_words (disk ?f2 (direct di' 12)) j = sector_words (disk f1 (direct di' 12)) j)"
  proof
    assume "12 < N"
    then have "direct di' 12 \<in> set ?I1" by (simp add: index_sectors_def)
    then have "direct di' 12 \<noteq> s0" using s0 by metis
    then show "\<forall>j<128. sector_words (disk ?f2 (direct di' 12)) j =
        sector_words (disk f1 (direct di' 12)) j" by (simp add: cache_write_def)
  qed
  have dst: "distinct ?I1" using d1 by simp
  have dir: "direct ?di2 = direct di'" by simp
  have v: "data_sectors ?f2 ?di2 N = ?D1" "index_sectors ?f2 ?di2 N = ?I1"
    using dir oth ind dst by (rule views_cong)+
  have "distinct (?D1 @ ?I1)" using d1 by auto
  then show "distinct (data_sectors ?f2 ?di2 N @ index_sectors ?f2 ?di2 N)" using v by simp
  show "\<forall>s\<in>set (data_sectors ?f2 ?di2 N). length (disk ?f2 s) = 512"
  proof
    fix s assume "s \<in> set (data_sectors ?f2 ?di2 N)"
    then have s: "s \<in> set ?D1" using v by simp
    then have ne: "s \<noteq> s0" using s0 by metis
    have "length (disk f1 s) = 512"
    proof (cases "s \<in> set nd")
      case True
      then show ?thesis using z by (simp add: length_zeros)
    next
      case False
      then have sD: "s \<in> set ?D" using s D1 by simp
      then have "s \<notin> set ?I" "s \<notin> set (free_map f)" using dist by auto
      then have "disk f1 s = disk f s" using fr up by auto
      then show ?thesis using secs sD by simp
    qed
    then show "length (disk ?f2 s) = 512" using ne by (simp add: cache_write_def)
  qed
qed

text \<open>
  C1, for an inode that accepts writes: for an inode that is not write-denied,
  with a well-formed block map whose block count agrees with its length, data
  sectors of 512 bytes and a
  sector of its own that the block map and the free map do not hold, a write of
  \<open>buffer\<close> at a nonnegative offset that ends within the 16524 addressable
  sectors, with a free map that holds the sectors a growth needs and a bounce
  buffer that can be allocated, writes all of \<open>buffer\<close>, and a read of the same
  size at the same offset then returns exactly \<open>buffer\<close>; this holds for every
  offset and size within these bounds, across sector boundaries and across the
  tiers of the block map. The length of the inode becomes the end of the write
  if that is beyond the old length.
\<close>

theorem write_read_round_trip:
  assumes dw: "deny_write_cnt ino = 0"
    and ok: "blockmap_ok f (data ino)"
    and bl: "blocks (data ino) = bytes_to_sectors (length_d (data ino))"
    and len: "0 \<le> length_d (data ino)" "length_d (data ino) \<le> 16524 * 512"
    and own: "sector ino \<notin> set (data_sectors f (data ino) (blocks (data ino))) \<union>
        set (index_sectors f (data ino) (blocks (data ino))) \<union> set (free_map f)"
    and secs: "\<forall>s\<in>set (data_sectors f (data ino) (blocks (data ino))). length (disk f s) = 512"
    and off: "0 \<le> offset" and sz: "sz = int (length buffer)"
    and cap: "offset + sz \<le> 16524 * 512"
    and n: "n = bytes_to_sectors (offset + sz) - bytes_to_sectors (length_d (data ino))"
    and pool: "n + index_count (blocks (data ino) + n) \<le>
        index_count (blocks (data ino)) + length (free_map f)"
  shows "\<exists>ino' f'. inode_write_at g True f ino buffer sz offset = (sz, ino', f') \<and>
     inode_read_at True f' ino' sz offset = (sz, buffer) \<and>
     inode_length ino' = max (inode_length ino) (offset + sz)"
proof -
  let ?di = "data ino"
  have sz0: "0 \<le> sz" and buf: "nat 0 + nat sz \<le> length buffer" using sz by simp_all
  have fin: "\<exists>ino' f'. inode_write_at g True f ino buffer sz offset = (sz, ino', f') \<and>
     inode_read_at True f' ino' sz offset = (sz, buffer) \<and>
     inode_length ino' = max (inode_length ino) (offset + sz)"
    if w: "inode_write_at g True f ino buffer sz offset =
        (case write_loop True f1 ino1 buffer sz offset 0 of (bw, f') \<Rightarrow> (bw, ino1, f'))"
      and L: "inode_length ino1 = L" "0 \<le> L" "L \<le> 16524 * 512" "offset + sz \<le> L"
      and mx: "L = max (inode_length ino) (offset + sz)"
      and d1: "distinct (data_sectors f1 (data ino1) (bytes_to_sectors L) @
          index_sectors f1 (data ino1) (bytes_to_sectors L))"
      and secs1: "\<forall>s\<in>set (data_sectors f1 (data ino1) (bytes_to_sectors L)).
          length (disk f1 s) = 512"
    for ino1 f1 L
  proof -
    obtain f' where wl: "write_loop True f1 ino1 buffer sz offset 0 = (0 + sz, f')"
      and rl: "\<And>br acc. read_loop True f' ino1 sz offset br acc =
          (br + sz, acc @ take (nat sz) (drop (nat 0) buffer))"
      using write_read_loops [OF L(1,2,3) refl d1 secs1 off sz0 L(4) order_refl buf] by blast
    have "inode_write_at g True f ino buffer sz offset = (sz, ino1, f')" using w wl by simp
    moreover have "inode_read_at True f' ino1 sz offset = (sz, buffer)"
      using rl [of 0 "[]"] sz by (simp add: inode_read_at_def)
    ultimately show ?thesis using L(1) mx by blast
  qed
  show ?thesis
  proof (cases "offset + sz > inode_length ino")
    case False
    have w: "inode_write_at g True f ino buffer sz offset =
        (case write_loop True f ino buffer sz offset 0 of (bw, f') \<Rightarrow> (bw, ino, f'))"
      using False dw by (simp add: inode_write_at_def)
    have dist: "distinct (data_sectors f ?di (blocks ?di) @ index_sectors f ?di (blocks ?di))"
      using ok by (auto simp: blockmap_ok_def)
    show ?thesis
    proof (rule fin [OF w])
      show "inode_length ino = length_d ?di" by (simp add: inode_length_def)
      show "0 \<le> length_d ?di" "length_d ?di \<le> 16524 * 512" by (rule len)+
      show "offset + sz \<le> length_d ?di" using False by (simp add: inode_length_def)
      then show "length_d ?di = max (inode_length ino) (offset + sz)"
        by (simp add: inode_length_def)
      show "distinct (data_sectors f ?di (bytes_to_sectors (length_d ?di)) @
          index_sectors f ?di (bytes_to_sectors (length_d ?di)))"
        using dist bl by simp
      show "\<forall>s\<in>set (data_sectors f ?di (bytes_to_sectors (length_d ?di))).
          length (disk f s) = 512"
        using secs bl by simp
    qed
  next
    case True
    define len1 where "len1 = offset + sz"
    have lt: "length_d ?di < len1" using True by (simp add: len1_def inode_length_def)
    have n1: "n = bytes_to_sectors len1 - bytes_to_sectors (length_d ?di)"
      using n by (simp add: len1_def)
    have cap1: "len1 \<le> 16524 * 512" using cap by (simp add: len1_def)
    obtain f1 di' used where r: "inode_grow g f ?di len1 = (len1, di', f1)"
      and gr: "grows f ?di used f1 di'"
      and b: "blocks di' = bytes_to_sectors len1"
      using inode_grow_within [OF ok bl len(1) lt cap1 n1 pool, of g] by auto
    let ?ino1 = "ino\<lparr>data := di'\<lparr>length_d := len1\<rparr>\<rparr>"
    let ?x = "inode_disk_sector (data ?ino1)"
    let ?f2 = "cache_write f1 (sector ino) ?x"
    have w: "inode_write_at g True f ino buffer sz offset =
        (case write_loop True ?f2 ?ino1 buffer sz offset 0 of (bw, f') \<Rightarrow> (bw, ?ino1, f'))"
      using True dw r by (simp add: inode_write_at_def len1_def)
    show ?thesis
    proof (rule fin [OF w])
      show "inode_length ?ino1 = len1" by (simp add: inode_length_def)
      show "0 \<le> len1" using lt len by simp
      show "len1 \<le> 16524 * 512" by (rule cap1)
      show "offset + sz \<le> len1" by (simp add: len1_def)
      show "len1 = max (inode_length ino) (offset + sz)" using True by (simp add: len1_def)
      show "distinct (data_sectors ?f2 (data ?ino1) (bytes_to_sectors len1) @
          index_sectors ?f2 (data ?ino1) (bytes_to_sectors len1))"
        using grown_views(1) [OF ok gr own secs b [symmetric], of ?x len1] by simp
      show "\<forall>s\<in>set (data_sectors ?f2 (data ?ino1) (bytes_to_sectors len1)).
          length (disk ?f2 s) = 512"
        using grown_views(2) [OF ok gr own secs b [symmetric], of ?x len1] by simp
    qed
  qed
qed

theorem write_read_round_trip_witness:
  "deny_write_cnt ex_new_inode = 0 \<and> blockmap_ok ex_fs_tiers (data ex_new_inode) \<and>
   (\<exists>ino' f'. inode_write_at ex_grow_stack True ex_fs_tiers ex_new_inode [7, 8] 2 6143 =
        (2, ino', f') \<and>
      inode_read_at True f' ino' 2 6143 = (2, [7, 8]) \<and> inode_length ino' = 6145)"
proof -
  have dw: "deny_write_cnt ex_new_inode = 0" by (simp add: ex_new_inode_def)
  have ok: "blockmap_ok ex_fs_tiers (data ex_new_inode)"
    by (simp add: blockmap_ok_def ex_fs_tiers_def ex_new_inode_def new_disk_inode_def
        data_sectors_def index_sectors_def)
  have bl: "blocks (data ex_new_inode) = bytes_to_sectors (length_d (data ex_new_inode))"
    by (simp add: ex_new_inode_def new_disk_inode_def bytes_to_sectors_nonneg)
  have len: "0 \<le> length_d (data ex_new_inode)" "length_d (data ex_new_inode) \<le> 16524 * 512"
    by (simp_all add: ex_new_inode_def new_disk_inode_def)
  have own: "sector ex_new_inode \<notin>
      set (data_sectors ex_fs_tiers (data ex_new_inode) (blocks (data ex_new_inode))) \<union>
      set (index_sectors ex_fs_tiers (data ex_new_inode) (blocks (data ex_new_inode))) \<union>
      set (free_map ex_fs_tiers)"
    by (simp add: ex_fs_tiers_def ex_new_inode_def new_disk_inode_def
        data_sectors_def index_sectors_def)
  have secs: "\<forall>s\<in>set (data_sectors ex_fs_tiers (data ex_new_inode) (blocks (data ex_new_inode))).
      length (disk ex_fs_tiers s) = 512"
    by (simp add: ex_new_inode_def new_disk_inode_def data_sectors_def)
  have off: "0 \<le> (6143::int)" and sz: "2 = int (length [7::byte, 8])"
    and cap: "6143 + 2 \<le> (16524 * 512 :: int)" by simp_all
  have n: "13 = bytes_to_sectors (6143 + 2) - bytes_to_sectors (length_d (data ex_new_inode))"
    by (simp add: ex_new_inode_def new_disk_inode_def bytes_to_sectors_nonneg)
  have pool: "13 + index_count (blocks (data ex_new_inode) + 13) \<le>
      index_count (blocks (data ex_new_inode)) + length (free_map ex_fs_tiers)"
    by (simp add: ex_new_inode_def new_disk_inode_def index_count_def ex_fs_tiers_def)
  have il: "inode_length ex_new_inode = 0"
    by (simp add: inode_length_def ex_new_inode_def new_disk_inode_def)
  show ?thesis
    using write_read_round_trip [OF dw ok bl len own secs off sz cap n pool, of ex_grow_stack]
      dw ok il by simp
qed

text \<open>
  The round trip of C1 does not hold for an inode that is write-denied: the write
  stores nothing and the read returns what the sector held before.
\<close>

theorem write_denied_no_round_trip:
  "inode_write_at ex_grow_stack True ex_fs ex_inode_denied [1, 2] 2 0 = (0, ex_inode_denied, ex_fs) \<and>
   inode_read_at True ex_fs ex_inode_denied 2 0 = (2, [0, 0])"
proof -
  have w: "inode_write_at ex_grow_stack True ex_fs ex_inode_denied [1, 2] 2 0 =
      (0, ex_inode_denied, ex_fs)"
    by (simp add: inode_write_at_def ex_inode_denied_def ex_inode_def)
  have il: "inode_length ex_inode_denied = 100000"
    by (simp add: inode_length_def ex_inode_denied_def ex_inode_def)
  have bs: "byte_to_sector ex_fs ex_inode_denied 0 = 100"
    by (simp add: byte_to_sector_def ex_inode_denied_def ex_inode_def Let_def size_t_def
        signed_divide_int_def)
  have dz: "disk ex_fs 100 = zeros" by (simp add: ex_fs_def)
  have "read_loop True ex_fs ex_inode_denied 2 0 0 [] =
      read_loop True ex_fs ex_inode_denied (2 - 2) (0 + 2) (0 + 2)
        ([] @ take (nat 2) (drop (nat 0) (disk ex_fs (byte_to_sector ex_fs ex_inode_denied 0))))"
    by (rule read_loop_step) (simp_all add: il bs dz length_zeros)
  also have "\<dots> = (2, take 2 zeros)" by (simp add: read_loop_stop bs dz)
  also have "take 2 zeros = [0, 0]" by (simp add: zeros_def numeral_2_eq_2)
  finally show ?thesis using w by (simp add: inode_read_at_def)
qed

subsection \<open>The record as bytes\<close>

lemma le32_word_le32: "le32 (word_le32 a b c d) = [a, b, c, d]"
proof -
  have 1: "ucast (word_le32 a b c d) = a"
    unfolding word_le32_def by (rule bit_word_eqI) (auto simp: bit_simps dest: bit_imp_le_length)
  have 2: "ucast (drop_bit 8 (word_le32 a b c d)) = b"
    unfolding word_le32_def by (rule bit_word_eqI) (auto simp: bit_simps dest: bit_imp_le_length)
  have 3: "ucast (drop_bit 16 (word_le32 a b c d)) = c"
    unfolding word_le32_def by (rule bit_word_eqI) (auto simp: bit_simps dest: bit_imp_le_length)
  have 4: "ucast (drop_bit 24 (word_le32 a b c d)) = d"
    unfolding word_le32_def by (rule bit_word_eqI) (auto simp: bit_simps dest: bit_imp_le_length)
  show ?thesis by (simp add: le32_def 1 2 3 4)
qed

lemma take_four:
  "i + 4 \<le> length xs \<Longrightarrow> take 4 (drop i xs) = [xs ! i, xs ! (i + 1), xs ! (i + 2), xs ! (i + 3)]"
proof -
  assume a: "i + 4 \<le> length xs"
  have "take (Suc (Suc (Suc (Suc 0)))) (drop i xs) =
      [xs ! i, xs ! (i + 1), xs ! (i + 2), xs ! (i + 3)]"
    using a by (simp add: take_Suc_conv_app_nth eval_nat_numeral)
  then show ?thesis by (simp add: eval_nat_numeral)
qed

lemma le32_sector_words:
  "4 * i + 4 \<le> length bs \<Longrightarrow> le32 (sector_words bs i) = take 4 (drop (4 * i) bs)"
  by (simp add: sector_words_def le32_word_le32 take_four)

lemma words_bytes_sector_words:
  "4 * (k + n) \<le> length bs \<Longrightarrow>
   words_bytes (\<lambda>i. sector_words bs (k + i)) n = take (4 * n) (drop (4 * k) bs)"
proof (induction n)
  case 0
  then show ?case by (simp add: words_bytes_def)
next
  case (Suc n)
  have wb: "words_bytes (\<lambda>i. sector_words bs (k + i)) (Suc n) =
      words_bytes (\<lambda>i. sector_words bs (k + i)) n @ le32 (sector_words bs (k + n))"
    by (simp add: words_bytes_def)
  have l: "le32 (sector_words bs (k + n)) = take 4 (drop (4 * (k + n)) bs)"
    using Suc.prems by (intro le32_sector_words) simp
  have "take (4 * n + 4) (drop (4 * k) bs) =
      take (4 * n) (drop (4 * k) bs) @ take 4 (drop (4 * n) (drop (4 * k) bs))"
    by (rule take_add)
  then show ?case using Suc wb l by (simp add: add.commute distrib_left)
qed

lemma length_inode_disk_sector: "length (inode_disk_sector di) = 512"
  by (simp add: inode_disk_sector_def length_le32 length_words_bytes)

lemma inode_disk_sector_inverse:
  assumes "length bs = 512"
  shows "inode_disk_sector (sector_inode_disk bs) = bs"
proof -
  have a: "le32 (word_of_int (sint (sector_words bs 0))) = take 4 (drop 0 bs)"
    using assms le32_sector_words [of 0 bs] by simp
  have b: "le32 (sector_words bs 1) = take 4 (drop 4 bs)"
    using assms le32_sector_words [of 1 bs] by simp
  have c: "words_bytes (\<lambda>i. sector_words bs (2 + i)) 110 = take 440 (drop 8 bs)"
    using assms words_bytes_sector_words [of 2 110 bs] by simp
  have d: "words_bytes (\<lambda>i. sector_words bs (112 + i)) 14 = take 56 (drop 448 bs)"
    using assms words_bytes_sector_words [of 112 14 bs] by simp
  have e: "le32 (word_of_nat (unat (sector_words bs 126))) = take 4 (drop 504 bs)"
    using assms le32_sector_words [of 126 bs] by simp
  have f: "[bs ! 508, bs ! 509, bs ! 510, bs ! 511] = take 4 (drop 508 bs)"
    using assms take_four [of 508 bs] by simp
  have "inode_disk_sector (sector_inode_disk bs) =
      take 4 (drop 0 bs) @ take 4 (drop 4 bs) @ take 440 (drop 8 bs) @ take 56 (drop 448 bs) @
      take 4 (drop 504 bs) @ take 4 (drop 508 bs)"
    unfolding inode_disk_sector_def sector_inode_disk_def
    by (simp only: inode_disk.simps a b c d e f [symmetric]) simp
  also have "\<dots> =
      ((((take 4 bs @ take 4 (drop 4 bs)) @ take 440 (drop 8 bs)) @ take 56 (drop 448 bs)) @
       take 4 (drop 504 bs)) @ take 4 (drop 508 bs)"
    by simp
  also have "\<dots> = take 512 bs"
  proof -
    have t1: "take 4 bs @ take 4 (drop 4 bs) = take 8 bs" using take_add [of 4 4 bs] by simp
    have t2: "take 8 bs @ take 440 (drop 8 bs) = take 448 bs" using take_add [of 8 440 bs] by simp
    have t3: "take 448 bs @ take 56 (drop 448 bs) = take 504 bs"
      using take_add [of 448 56 bs] by simp
    have t4: "take 504 bs @ take 4 (drop 504 bs) = take 508 bs"
      using take_add [of 504 4 bs] by simp
    have t5: "take 508 bs @ take 4 (drop 508 bs) = take 512 bs"
      using take_add [of 508 4 bs] by simp
    show ?thesis by (simp only: t1 t2 t3 t4 t5)
  qed
  finally show ?thesis using assms by simp
qed

subsection \<open>A disk with a block map of distinct sectors\<close>

lemma unat_of_nat32: "m < 2 ^ 32 \<Longrightarrow> unat (of_nat m :: 32 word) = m"
  by (simp add: unat_of_nat)

lemma ex_top_buf:
  "outer < 128 \<Longrightarrow> top_buf ex_fs_pat (ex_disk_inode_pat len) outer = of_nat (600 + outer)"
  by (simp add: top_buf_def ex_fs_pat_def ex_disk_inode_pat_def ex_disk_pat_def
      sector_words_words_sector)

lemma ex_ind_buf:
  "j < 128 \<Longrightarrow> ind_buf ex_fs_pat (ex_disk_inode_pat len) j = of_nat (1012 + j)"
  by (simp add: ind_buf_def ex_fs_pat_def ex_disk_inode_pat_def ex_disk_pat_def
      sector_words_words_sector)

lemma ex_slot_buf:
  assumes "outer < 128" "j < 128"
  shows "slot_buf ex_fs_pat (ex_disk_inode_pat len) outer j = of_nat (1140 + 128 * outer + j)"
proof -
  define w :: "32 word" where "w = of_nat (600 + outer)"
  have u: "unat w = 600 + outer"
    unfolding w_def using assms by (intro unat_of_nat32) simp
  have t: "top_buf ex_fs_pat (ex_disk_inode_pat len) outer = w"
    unfolding w_def using assms(1) by (rule ex_top_buf)
  have "disk ex_fs_pat w = words_sector (\<lambda>j. of_nat (1140 + 128 * outer + j))"
    using assms by (simp add: ex_fs_pat_def ex_disk_pat_def u)
  then show ?thesis
    using assms(2) unfolding slot_buf_def t by (simp only: sector_words_words_sector)
qed

lemma ex_data_sector:
  assumes "i < 16524"
  shows "data_sector ex_fs_pat (ex_disk_inode_pat len) i = of_nat (1000 + i)"
proof -
  consider "i < 12" | "12 \<le> i" "i < 140" | "140 \<le> i" by linarith
  then show ?thesis
  proof cases
    case 1
    then show ?thesis by (simp add: data_sector_def ex_disk_inode_pat_def)
  next
    case 2
    then show ?thesis by (simp add: data_sector_def ex_ind_buf)
  next
    case 3
    define c where "c = i - 140"
    define outer where "outer = c div 128"
    define j where "j = c mod 128"
    have c: "c < 128 * 128" using assms 3 by (simp add: c_def)
    have o: "outer < 128" unfolding outer_def using c by (rule less_mult_imp_div_less)
    have j: "j < 128" by (simp add: j_def)
    have e: "128 * outer + j = c" by (simp add: outer_def j_def)
    have "data_sector ex_fs_pat (ex_disk_inode_pat len) i =
        slot_buf ex_fs_pat (ex_disk_inode_pat len) outer j"
      using 3 by (simp add: data_sector_def c_def outer_def j_def)
    also have "\<dots> = of_nat (1140 + 128 * outer + j)" using o j by (rule ex_slot_buf)
    also have "1140 + 128 * outer + j = 1000 + i" using e 3 by (simp add: c_def)
    finally show ?thesis .
  qed
qed

lemma ex_data_sectors:
  "n \<le> 16524 \<Longrightarrow>
   data_sectors ex_fs_pat (ex_disk_inode_pat len) n = map (\<lambda>i. of_nat (1000 + i)) [0..<n]"
  unfolding data_sectors_def by (rule map_cong) (simp_all add: ex_data_sector)

lemma ex_index_sectors:
  assumes "n \<le> 16524"
  shows "index_sectors ex_fs_pat (ex_disk_inode_pat len) n =
     (if 12 < n then [500] else []) @
     (if 140 < n then 501 # map (\<lambda>outer. of_nat (600 + outer)) [0..<slots_used n] else [])"
proof -
  have "slots_used n \<le> 128" using assms by (rule slots_used_le)
  then have m: "map (top_buf ex_fs_pat (ex_disk_inode_pat len)) [0..<slots_used n] =
      map (\<lambda>outer. of_nat (600 + outer)) [0..<slots_used n]"
    by (intro map_cong [OF refl] ex_top_buf) simp
  have d: "direct (ex_disk_inode_pat len) 12 = 500" "direct (ex_disk_inode_pat len) 13 = 501"
    by (simp_all add: ex_disk_inode_pat_def)
  show ?thesis unfolding index_sectors_def m d by (rule refl)
qed

lemma distinct_map_of_nat:
  assumes "distinct ns" "\<forall>m\<in>set ns. m < 2 ^ 32"
  shows "distinct (map (of_nat :: nat \<Rightarrow> 32 word) ns)"
proof -
  have "inj_on (of_nat :: nat \<Rightarrow> 32 word) (set ns)"
  proof (rule inj_onI)
    fix x y assume x: "x \<in> set ns" and y: "y \<in> set ns"
      and e: "(of_nat x :: 32 word) = of_nat y"
    have b: "x < 2 ^ 32" "y < 2 ^ 32" using x y assms(2) by blast+
    have "unat (of_nat x :: 32 word) = x" using b(1) by (rule unat_of_nat32)
    moreover have "unat (of_nat y :: 32 word) = y" using b(2) by (rule unat_of_nat32)
    ultimately show "x = y" using e by metis
  qed
  then show ?thesis using assms(1) by (simp add: distinct_map)
qed

lemma ex_blockmap_distinct:
  assumes n: "n \<le> 16524"
  shows "distinct (data_sectors ex_fs_pat (ex_disk_inode_pat len) n @
     index_sectors ex_fs_pat (ex_disk_inode_pat len) n)"
proof -
  let ?ns = "map (\<lambda>i. 1000 + i) [0..<n] @ (if 12 < n then [500] else []) @
       (if 140 < n then 501 # map (\<lambda>outer. 600 + outer) [0..<slots_used n] else [])"
  have su: "slots_used n \<le> 128" using n by (rule slots_used_le)
  have d: "distinct ?ns" using su by (auto simp: distinct_map inj_on_def)
  have b: "\<forall>m\<in>set ?ns. m < 2 ^ 32" using n su by auto
  have "data_sectors ex_fs_pat (ex_disk_inode_pat len) n @
      index_sectors ex_fs_pat (ex_disk_inode_pat len) n = map of_nat ?ns"
    unfolding ex_data_sectors [OF n] ex_index_sectors [OF n] by (simp add: comp_def)
  then show ?thesis using distinct_map_of_nat [OF d b] by (simp only:)
qed

subsection \<open>Beyond the capacity of the block map\<close>

lemma free_doubly_beyond:
  "128 < db \<Longrightarrow> i \<le> 128 \<Longrightarrow> free_doubly f b1 i db s = None"
proof (induction "128 - i" arbitrary: f i s)
  case 0
  then have "i = 128" by simp
  then show ?case using 0 by (subst free_doubly.simps) simp
next
  case (Suc k)
  then have lt: "i < 128" "i < db" by simp_all
  let ?t = "if s < 128 then s else 128"
  let ?b2 = "sector_words (cache_read f (b1 i))"
  obtain f1 s1 where e: "free_entries f ?b2 0 ?t s = (f1, s1)"
    by (cases "free_entries f ?b2 0 ?t s") auto
  have "free_doubly f b1 i db s = free_doubly (free_map_release f1 (b1 i)) b1 (i + 1) db s1"
    using lt e by (subst free_doubly.simps) (simp add: Let_def)
  also have "\<dots> = None" using Suc.hyps(2) Suc.prems lt by (intro Suc.hyps(1)) simp_all
  finally show ?case .
qed

lemma inode_free_beyond:
  assumes n: "bytes_to_sectors (length_d (data ino)) = n" and gt: "16524 < n"
  shows "inode_free f ino = None"
proof -
  let ?di = "data ino"
  have n32: "n < 2 ^ 32" using n bytes_to_sectors_less [of "length_d ?di"] by simp
  let ?f1 = "f\<lparr>free_map := free_map f @ map (direct ?di) [0..<12]\<rparr>"
  have "free_direct f ?di n 0 =
      (f\<lparr>free_map := free_map f @ map (direct ?di) [0..<0 + min n (12 - 0)]\<rparr>,
       n - min n (12 - 0), 0 + min n (12 - 0), n \<le> 12 - 0)"
    using gt n32 by (intro free_direct_closed) simp_all
  then have d: "free_direct f ?di n 0 = (?f1, n - 12, 12, False)" using gt by (simp add: min_def)
  let ?f2 = "?f1\<lparr>free_map := free_map ?f1 @ map (ind_buf f ?di) [0..<128]\<rparr>"
  have "free_entries ?f1 (ind_buf f ?di) 0 128 (n - 12) = (?f2, n - 12 - (128 - 0))"
    using gt n32 by (intro free_entries_closed) simp_all
  then have e: "free_entries ?f1 (ind_buf f ?di) 0 128 (n - 12) = (?f2, n - 140)" by simp
  have tf: "(if n - 12 < 128 then n - 12 else 128) = 128" using gt by simp
  let ?f3 = "free_map_release ?f2 (direct ?di 12)"
  define db where "db = DIV_ROUND_UP_size_t (n - 140) 128"
  have "n - 140 + 128 - 1 = n - 13" using gt by simp
  moreover have "(n - 13) mod 2 ^ 32 = n - 13" using n32 by simp
  ultimately have "db = (n - 13) div 128" by (simp add: db_def DIV_ROUND_UP_size_t_def)
  moreover have "16512 div 128 \<le> (n - 13) div 128" using gt by (intro div_le_mono) simp
  ultimately have dbgt: "128 < db" by simp
  have fd: "free_doubly ?f3 (top_buf f ?di) 0 db (n - 140) = None"
    using dbgt by (intro free_doubly_beyond) simp_all
  have nz: "(n = 0) = False" "(n - 140 = 0) = False" "(12 + 1 :: nat) = 13" using gt by simp_all
  have tb: "sector_words (cache_read ?f3 (direct ?di 13)) = top_buf f ?di"
    by (simp add: top_buf_fold)
  show ?thesis
    unfolding inode_free_def Let_def n
    by (simp only: d ind_buf_fold ind_buf_free_map tf e split if_False if_True refl nz tb
        db_def [symmetric] fd option.case)
qed

lemma release_order_free_map [simp]:
  "release_order (f\<lparr>free_map := x\<rparr>) di n = release_order f di n"
  by (simp add: release_order_def)

lemma write_past_full:
  "\<exists>ino' f'. inode_write_at ex_grow_stack True ex_fs_pool ex_full_inode [9] 1 8460288 =
       (1, ino', f') \<and>
     ino' = ex_full_inode\<lparr>data := ex_full_disk\<lparr>length_d := 8460289\<rparr>\<rparr>"
proof -
  obtain f2 where
    g: "inode_grow ex_grow_stack ex_fs_pool ex_full_disk 8460289 = (8460289, ex_full_disk, f2)"
    and l2: "\<forall>s. length (disk f2 s) = 512"
    using inode_grow_full by blast
  let ?ino = "ex_full_inode\<lparr>data := ex_full_disk\<lparr>length_d := 8460289\<rparr>\<rparr>"
  let ?f3 = "cache_write f2 (sector ?ino) (inode_disk_sector (data ?ino))"
  have l3: "length (disk ?f3 s) = 512" for s
    using l2 by (simp add: cache_write_def length_inode_disk_sector)
  have il: "inode_length ex_full_inode = 8460288" "deny_write_cnt ex_full_inode = 0"
    "data ex_full_inode = ex_full_disk"
    by (simp_all add: inode_length_def ex_full_inode_def ex_full_disk_def)
  have w: "inode_write_at ex_grow_stack True ex_fs_pool ex_full_inode [9] 1 8460288 =
      (case write_loop True ?f3 ?ino [9] 1 8460288 0 of (bw, f') \<Rightarrow> (bw, ?ino, f'))"
    using g by (simp add: inode_write_at_def il)
  let ?S = "byte_to_sector ?f3 ?ino 8460288"
  let ?x = "take (nat 0) (disk ?f3 ?S) @ take (nat 1) (drop (nat 0) [9]) @
           drop (nat 0 + nat 1) (disk ?f3 ?S)"
  have "write_loop True ?f3 ?ino [9] 1 8460288 0 =
      write_loop True (cache_write ?f3 ?S ?x) ?ino [9] (1 - 1) (8460288 + 1) (0 + 1)"
  proof (rule write_loop_step)
    show "0 \<le> (8460288::int)" "0 < (1::int)" by simp_all
    show "8460288 + 1 \<le> inode_length ?ino" by (simp add: inode_length_def)
    show "(0::int) = 8460288 mod 512" by simp
    show "(1::int) = min 1 (512 - 0)" by simp
    show "?S = byte_to_sector ?f3 ?ino 8460288" by (rule refl)
    show "length (disk ?f3 ?S) = 512" by (rule l3)
  qed
  also have "\<dots> = (1, cache_write ?f3 ?S ?x)" by (simp add: write_loop_stop)
  finally show ?thesis using w by simp
qed

lemma last_close_removed:
  assumes m: "map_of (open_inodes k) a = Some ino" and c: "open_cnt ino = 1" and r: "removed ino"
  shows "inode_close k (Some a) =
     map_option (\<lambda>f. \<lparr>files = f, open_inodes = list_remove a (open_inodes k)\<rparr>)
       (inode_free (free_map_release (files k) (sector ino)) ino)"
  using c r
  by (simp add: inode_close_def m Let_def list_remove_update_inode
      inode_free_data [of "ino\<lparr>open_cnt := 0\<rparr>" ino] split: option.splits)

lemma last_close_releases:
  assumes m: "map_of (open_inodes k) a = Some ino" and c: "open_cnt ino = 1" and r: "removed ino"
    and n: "bytes_to_sectors (length_d (data ino)) = n" and le: "n \<le> 16524"
  shows "inode_close k (Some a) =
     Some \<lparr>files = (files k)\<lparr>free_map :=
              free_map (files k) @ sector ino # release_order (files k) (data ino) n\<rparr>,
           open_inodes = list_remove a (open_inodes k)\<rparr>"
proof -
  let ?f1 = "free_map_release (files k) (sector ino)"
  have "inode_free ?f1 ino = Some (?f1\<lparr>free_map := free_map ?f1 @ release_order ?f1 (data ino) n\<rparr>)"
    using n le by (rule inode_free_closed)
  then show ?thesis
    using last_close_removed [OF m c r] by (simp add: free_map_release_def)
qed

subsection \<open>What the release engine releases\<close>




subsection \<open>Deferred removal\<close>

lemma ex_release_order_small:
  "release_order ex_fs_pat (ex_disk_inode_pat len) 13 =
     [1000, 1001, 1002, 1003, 1004, 1005, 1006, 1007, 1008, 1009, 1010, 1011, 1012, 500]"
proof -
  have u: "[0..<12] = [0, 1, 2, 3, 4, 5, 6, 7, 8, 9, 10, 11]" "[0..<1] = [0]"
    by (simp_all add: upt_rec)
  have i: "ind_buf ex_fs_pat (ex_disk_inode_pat len) 0 = 1012"
    using ex_ind_buf [of 0 len] by simp
  show ?thesis
    unfolding release_order_def by (simp add: u i) (simp add: ex_disk_inode_pat_def)
qed




subsection \<open>Reading the record back\<close>

lemma sector_words_append:
  "4 * i + 4 \<le> length xs \<Longrightarrow> sector_words (xs @ ys) i = sector_words xs i"
  by (simp add: sector_words_def nth_append)

lemma words_bytes_append:
  "words_bytes f n @ words_bytes g m =
   words_bytes (\<lambda>i. if i < n then f i else g (i - n)) (n + m)"
proof (induction m)
  case 0
  have "map (\<lambda>i. le32 (if i < n then f i else g (i - n))) [0..<n] = map (\<lambda>i. le32 (f i)) [0..<n]"
    by (rule map_cong) simp_all
  then have "words_bytes (\<lambda>i. if i < n then f i else g (i - n)) n = words_bytes f n"
    unfolding words_bytes_def by (rule arg_cong)
  moreover have "words_bytes g 0 = []" by (simp add: words_bytes_def)
  ultimately show ?case by simp
next
  case (Suc m)
  have "words_bytes f n @ words_bytes g (Suc m) = (words_bytes f n @ words_bytes g m) @ le32 (g m)"
    by (simp add: words_bytes_def)
  then show ?case using Suc by (simp add: words_bytes_def)
qed

lemma le32_words_bytes: "le32 w = words_bytes (\<lambda>_. w) 1"
  by (simp add: words_bytes_def)

lemma inode_disk_sector_words:
  "inode_disk_sector di =
     words_bytes (record_words di) 127 @ [is_dir di, padding di 0, padding di 1, padding di 2]"
proof -
  have "le32 (word_of_int (length_d di)) @ le32 (magic di) @ words_bytes (unused di) 110 @
      words_bytes (direct di) 14 @ le32 (word_of_nat (blocks di)) =
      words_bytes (record_words di) 127"
    unfolding le32_words_bytes [of "word_of_int (length_d di)"] le32_words_bytes [of "magic di"]
      le32_words_bytes [of "word_of_nat (blocks di)"] words_bytes_append
    unfolding words_bytes_def
    by (intro arg_cong [where f = concat] map_cong)
       (auto simp: record_words_def numeral_2_eq_2)
  then show ?thesis by (simp add: inode_disk_sector_def)
qed

lemma sector_words_inode_disk_sector:
  "i < 127 \<Longrightarrow> sector_words (inode_disk_sector di) i = record_words di i"
  unfolding inode_disk_sector_words
  by (simp add: sector_words_append length_words_bytes sector_words_words_bytes)

lemma sector_inode_disk_inverse:
  "magic (sector_inode_disk (inode_disk_sector di)) = magic di"
  "i < 110 \<Longrightarrow> unused (sector_inode_disk (inode_disk_sector di)) i = unused di i"
  "j < 14 \<Longrightarrow> direct (sector_inode_disk (inode_disk_sector di)) j = direct di j"
  "blocks di < 2 ^ 32 \<Longrightarrow> blocks (sector_inode_disk (inode_disk_sector di)) = blocks di"
  "- (2 ^ 31) \<le> length_d di \<Longrightarrow> length_d di < 2 ^ 31 \<Longrightarrow>
     length_d (sector_inode_disk (inode_disk_sector di)) = length_d di"
  "is_dir (sector_inode_disk (inode_disk_sector di)) = is_dir di"
  "p < 3 \<Longrightarrow> padding (sector_inode_disk (inode_disk_sector di)) p = padding di p"
proof -
  let ?bs = "inode_disk_sector di"
  have l: "length (words_bytes (record_words di) 127) = 508" by (simp add: length_words_bytes)
  show "magic (sector_inode_disk ?bs) = magic di"
    by (simp add: sector_inode_disk_def sector_words_inode_disk_sector record_words_def)
  show "unused (sector_inode_disk ?bs) i = unused di i" if "i < 110"
    using that by (simp add: sector_inode_disk_def sector_words_inode_disk_sector record_words_def)
  show "direct (sector_inode_disk ?bs) j = direct di j" if "j < 14"
    using that by (simp add: sector_inode_disk_def sector_words_inode_disk_sector record_words_def)
  show "blocks (sector_inode_disk ?bs) = blocks di" if "blocks di < 2 ^ 32"
  proof -
    have "unat (word_of_nat (blocks di) :: 32 word) = blocks di"
      using that by (rule unat_of_nat32)
    then show ?thesis
      by (simp add: sector_inode_disk_def sector_words_inode_disk_sector record_words_def)
  qed
  show "length_d (sector_inode_disk ?bs) = length_d di"
    if "- (2 ^ 31) \<le> length_d di" "length_d di < 2 ^ 31"
  proof -
    have "sint (word_of_int (length_d di) :: 32 word) = length_d di"
      using that by (simp add: sint_sbintrunc' signed_take_bit_int_eq_self)
    then show ?thesis
      by (simp add: sector_inode_disk_def sector_words_inode_disk_sector record_words_def)
  qed
  show "is_dir (sector_inode_disk ?bs) = is_dir di"
    unfolding sector_inode_disk_def inode_disk_sector_words using l by (simp add: nth_append)
  show "padding (sector_inode_disk ?bs) p = padding di p" if "p < 3"
  proof -
    have "p = 0 \<or> p = 1 \<or> p = 2" using that by auto
    then show ?thesis
      unfolding sector_inode_disk_def inode_disk_sector_words using l
      by (auto simp: nth_append)
  qed
qed

subsection \<open>Opening and closing an inode leaves its sector as it was\<close>

lemma list_remove_absent: "a \<notin> fst ` set es \<Longrightarrow> list_remove a es = es"
  unfolding list_remove_def by (rule filter_True) force

lemma open_close_flush:
  assumes nf: "registry_find (open_inodes k) s = None"
    and a: "a \<notin> fst ` set (open_inodes k)"
    and len: "length (disk (files k) s) = 512"
  shows "\<exists>k1. inode_open k s (Some a) = Some (Some a, k1) \<and> inode_close k1 (Some a) = Some k"
proof -
  let ?ino = "\<lparr>sector = s, open_cnt = 1, removed = False, deny_write_cnt = 0,
      data = sector_inode_disk (cache_read (files k) s)\<rparr>"
  let ?k1 = "k\<lparr>open_inodes := (a, ?ino) # open_inodes k\<rparr>"
  have o: "inode_open k s (Some a) = Some (Some a, ?k1)" by (simp add: inode_open_def nf)
  have w: "inode_disk_sector (sector_inode_disk (disk (files k) s)) = disk (files k) s"
    using len by (rule inode_disk_sector_inverse)
  have r: "list_remove a ((a, ?ino) # open_inodes k) = open_inodes k"
    using list_remove_absent [OF a] by (simp add: list_remove_def)
  have "inode_close ?k1 (Some a) =
      Some \<lparr>files = cache_write (files k) s (inode_disk_sector (sector_inode_disk (disk (files k) s))),
            open_inodes = list_remove a ((a, ?ino) # open_inodes k)\<rparr>"
    by (simp add: inode_close_def Let_def list_remove_update_inode cache_read_def)
  then have "inode_close ?k1 (Some a) = Some k"
    unfolding w r by (simp add: cache_write_def)
  then show ?thesis using o by blast
qed

end
